theory Spec2Isabelle
  imports Main "HOL-Library.Word"
begin

unbundle bit_operations_syntax

section \<open>The I/O layer of gzip (util.c)\<close>

text \<open>
  A shallow embedding of util.c: the checksum register, the input and output
  buffers, the capped read and write wrappers and the error handlers.  The C
  globals and the part of the operating system that the functions talk to (the
  descriptors, \<open>errno\<close>, the diagnostic stream) are the fields of one record that
  every function takes and returns.  A function that may leave through
  \<open>abort_gzip\<close> or \<open>finish_up_gzip\<close> returns a sum; a function whose loop may run
  forever returns an option around it.
\<close>

subsection \<open>Types\<close>

type_synonym uch = "8 word"
type_synonym unsigned = "32 word"
type_synonym off_t = "64 word"

text \<open>A pointer into one of the three static buffers: the array and an offset.\<close>

datatype region = InBuf | OutBuf | Window

type_synonym ptr = "region \<times> nat"

text \<open>
  What the next \<open>read\<close> on a descriptor does: deliver (at most) the bytes of a
  chunk, or fail with an \<open>errno\<close>.  A descriptor with no event left is at end of
  file.  What the i-th \<open>write\<close> of the process does: accept at most k bytes, or
  fail with an \<open>errno\<close>.
\<close>

datatype rd_event = RdData "uch list" | RdFail int

datatype wr_event = WrTake nat | WrFail int

text \<open>
  The exit codes of gzip.h (distinct integer macros there), and the two ways a
  handler leaves the process.
\<close>

datatype exitcode = OK | ERROR | WARNING

datatype exit_info = Abort_gzip | Finish_up_gzip exitcode

record gz =
  crc :: "32 word"
  inbuf :: "uch list"
  outbuf :: "uch list"
  window :: "uch list"
  insize :: unsigned
  inptr :: unsigned
  outcnt :: unsigned
  bytes_in :: off_t
  bytes_out :: off_t
  ifd :: int
  ofd :: int
  test :: bool
  quiet :: bool
  program_name :: string
  ifname :: string
  ofname :: string
  errno :: int
  stderr :: string
  INBUFSIZ :: unsigned
  EPIPE :: int
  EAGAIN :: int
  strerror :: "int \<Rightarrow> string"
  fd_in :: "int \<Rightarrow> rd_event list"
  fd_nonblock :: "int \<Rightarrow> bool option"
  setfl_ok :: bool
  fcntl_errno :: int
  wr_beh :: "nat \<Rightarrow> wr_event"
  wr_calls :: nat
  fd_out :: "int \<Rightarrow> uch list"

text \<open>
  The fields up to \<open>stderr\<close> are the globals of gzip and the C library.
  \<open>crc\<close> has the C type \<open>ulg\<close> of gzip.h and only ever holds a result of
  \<open>crc32_update\<close>, the 32-bit accumulator of the spec; \<open>insize\<close>, \<open>inptr\<close> and
  \<open>outcnt\<close> are \<open>unsigned\<close>; the byte counters are \<open>off_t\<close>, taken as 64 bits
  (their sums wrap here, where C leaves the overflow undefined); \<open>test\<close> and
  \<open>quiet\<close> are the flags, true for a non-zero \<open>int\<close>.
  \<open>INBUFSIZ\<close> (gzip.h), \<open>EPIPE\<close>, \<open>EAGAIN\<close> and \<open>strerror\<close> (the platform)
  are declared outside util.c and are parameters here.  The remaining fields are
  the environment: the pending input of each descriptor, its \<open>O_NONBLOCK\<close> flag
  (\<open>None\<close> when \<open>fcntl\<close> fails on it), whether \<open>F_SETFL\<close> succeeds and the
  \<open>errno\<close> of a failing \<open>fcntl\<close>, the behaviour of the successive \<open>write\<close> calls,
  their number so far, and the bytes each descriptor has received.
\<close>

type_synonym 'a res = "(exit_info \<times> gz) + ('a \<times> gz)"

definition INT_MAX :: unsigned where
  "INT_MAX = 0x7FFFFFFF"

definition EOF :: int where
  "EOF = - 1"

definition res_state :: "'a res \<Rightarrow> gz" where
  "res_state r = (case r of Inl (e, s) \<Rightarrow> s | Inr (v, s) \<Rightarrow> s)"

definition bind_res :: "'a res option \<Rightarrow> ('a \<Rightarrow> gz \<Rightarrow> 'b res option) \<Rightarrow> 'b res option" where
  "bind_res m f =
     (case m of
        None \<Rightarrow> None
      | Some (Inl e) \<Rightarrow> Some (Inl e)
      | Some (Inr (v, s)) \<Rightarrow> f v s)"

subsection \<open>Memory\<close>

fun region_bytes :: "region \<Rightarrow> gz \<Rightarrow> uch list" where
  "region_bytes InBuf s = inbuf s"
| "region_bytes OutBuf s = outbuf s"
| "region_bytes Window s = window s"

text \<open>
  Reading n bytes at a pointer, and writing bytes there.  C leaves an access
  past the end of the array undefined; here a load past the end is cut short and
  a store past the end is dropped, so that the arrays keep their size.
\<close>

definition load :: "ptr \<Rightarrow> nat \<Rightarrow> gz \<Rightarrow> uch list" where
  "load p n s = take n (drop (snd p) (region_bytes (fst p) s))"

definition overlay :: "nat \<Rightarrow> 'a list \<Rightarrow> 'a list \<Rightarrow> 'a list" where
  "overlay off bs m = take off m @ take (length m - off) bs @ drop (off + length bs) m"

fun store :: "ptr \<Rightarrow> uch list \<Rightarrow> gz \<Rightarrow> gz" where
  "store (InBuf, off) bs s = s\<lparr>inbuf := overlay off bs (inbuf s)\<rparr>"
| "store (OutBuf, off) bs s = s\<lparr>outbuf := overlay off bs (outbuf s)\<rparr>"
| "store (Window, off) bs s = s\<lparr>window := overlay off bs (window s)\<rparr>"

subsection \<open>The system calls\<close>

definition sys_read :: "int \<Rightarrow> ptr \<Rightarrow> nat \<Rightarrow> gz \<Rightarrow> int \<times> gz" where
  "sys_read fd buf cnt s =
     (case fd_in s fd of
        [] \<Rightarrow> (0, s)
      | RdFail e # rest \<Rightarrow> (- 1, s\<lparr>errno := e, fd_in := (fd_in s)(fd := rest)\<rparr>)
      | RdData bs # rest \<Rightarrow>
          if length bs \<le> cnt
          then (int (length bs), store buf bs (s\<lparr>fd_in := (fd_in s)(fd := rest)\<rparr>))
          else (int cnt,
                store buf (take cnt bs) (s\<lparr>fd_in := (fd_in s)(fd := RdData (drop cnt bs) # rest)\<rparr>)))"

definition sys_write :: "int \<Rightarrow> ptr \<Rightarrow> nat \<Rightarrow> gz \<Rightarrow> int \<times> gz" where
  "sys_write fd buf cnt s =
     (case wr_beh s (wr_calls s) of
        WrFail e \<Rightarrow> (- 1, s\<lparr>errno := e, wr_calls := Suc (wr_calls s)\<rparr>)
      | WrTake k \<Rightarrow>
          (int (min k cnt),
           s\<lparr>wr_calls := Suc (wr_calls s),
             fd_out := (fd_out s)(fd := fd_out s fd @ load buf (min k cnt) s)\<rparr>))"

subsection \<open>The checksum\<close>

text \<open>
  Modelled from the spec: \<open>crc32_update\<close> is declared in crc.h and defined
  outside util.c.  The spec asks for "the accumulator's standard incremental
  update over bytes starting from current", of a 32-bit cyclic redundancy code:
  the register is inverted, each byte is folded in (eight shifts with the
  reflected polynomial), and the register is inverted again.
\<close>

definition crc32_shift :: "32 word \<Rightarrow> 32 word" where
  "crc32_shift c = (if bit c 0 then drop_bit 1 c XOR 0xEDB88320 else drop_bit 1 c)"

definition crc32_byte :: "32 word \<Rightarrow> uch \<Rightarrow> 32 word" where
  "crc32_byte c b = (crc32_shift ^^ 8) (c XOR ucast b)"

definition crc32_update_no_xor :: "32 word \<Rightarrow> uch list \<Rightarrow> 32 word" where
  "crc32_update_no_xor c bs = foldl crc32_byte c bs"

definition crc32_update :: "32 word \<Rightarrow> uch list \<Rightarrow> 32 word" where
  "crc32_update c bs = crc32_update_no_xor (c XOR 0xFFFFFFFF) bs XOR 0xFFFFFFFF"

text \<open>\<open>updcrc (s, n)\<close>: the pointer is \<open>None\<close> for \<open>NULL\<close>.\<close>

definition updcrc :: "ptr option \<Rightarrow> unsigned \<Rightarrow> gz \<Rightarrow> 32 word \<times> gz" where
  "updcrc p n s =
     (let s1 = s\<lparr>crc := (case p of
                            None \<Rightarrow> 0
                          | Some b \<Rightarrow> crc32_update (crc s) (load b (unat n) s))\<rparr>
      in (crc s1, s1))"

definition getcrc :: "gz \<Rightarrow> 32 word" where
  "getcrc s = crc s"

subsection \<open>Buffers\<close>

definition clear_bufs :: "gz \<Rightarrow> gz" where
  "clear_bufs s = s\<lparr>outcnt := 0, insize := 0, inptr := 0, bytes_in := 0, bytes_out := 0\<rparr>"

subsection \<open>Error handlers\<close>

text \<open>
  Modelled from the spec: \<open>abort_gzip\<close> and \<open>finish_up_gzip\<close> are defined
  outside util.c.  By the spec every fatal path "terminates the process" after
  its diagnostic, and a write failure ends "the current operation" at its
  severity: a handler returns \<open>Inl\<close> with the way it left and the state then.
\<close>

definition diagnostic :: "string \<Rightarrow> string \<Rightarrow> string \<Rightarrow> string" where
  "diagnostic prog name m = [CHR 0x0A] @ prog @ '': '' @ name @ '': '' @ m @ [CHR 0x0A]"

definition gzip_error :: "string \<Rightarrow> gz \<Rightarrow> 'a res" where
  "gzip_error m s =
     Inl (Abort_gzip, s\<lparr>stderr := stderr s @ diagnostic (program_name s) (ifname s) m\<rparr>)"

definition xalloc_die :: "gz \<Rightarrow> 'a res" where
  "xalloc_die s =
     Inl (Abort_gzip,
          s\<lparr>stderr := stderr s @ [CHR 0x0A] @ program_name s @ '': memory_exhausted'' @ [CHR 0x0A]\<rparr>)"

definition read_error :: "gz \<Rightarrow> 'a res" where
  "read_error s =
     Inl (Abort_gzip,
          s\<lparr>stderr := stderr s @ diagnostic (program_name s) (ifname s)
               (if errno s \<noteq> 0 then strerror s (errno s) else ''unexpected end of file'')\<rparr>)"

definition write_error :: "gz \<Rightarrow> 'a res" where
  "write_error s =
     (let exitcode = (if errno s = EPIPE s then WARNING else ERROR);
          s1 = (if \<not> (exitcode = WARNING \<and> quiet s)
                then s\<lparr>stderr := stderr s @ diagnostic (program_name s) (ofname s)
                                    (strerror s (errno s))\<rparr>
                else s)
      in Inl (Finish_up_gzip exitcode, s1))"

subsection \<open>Capped read and write\<close>

text \<open>
  \<open>read_buffer\<close>, with the branch for \<open>EAGAIN\<close> that the platform macros
  \<open>F_SETFL\<close>, \<open>O_NONBLOCK\<close> and \<open>EAGAIN\<close> enable.
\<close>

definition read_buffer :: "int \<Rightarrow> ptr \<Rightarrow> unsigned \<Rightarrow> gz \<Rightarrow> int \<times> gz" where
  "read_buffer fd buf cnt s =
     (let cnt1 = (if INT_MAX < cnt then INT_MAX else cnt);
          (len, s1) = sys_read fd buf (unat cnt1) s
      in if len < 0 \<and> errno s1 = EAGAIN s1
         then (case fd_nonblock s1 fd of
                 None \<Rightarrow> (len, s1\<lparr>errno := fcntl_errno s1\<rparr>)
               | Some nonblock \<Rightarrow>
                   if \<not> nonblock then (len, s1\<lparr>errno := EAGAIN s1\<rparr>)
                   else if setfl_ok s1
                   then sys_read fd buf (unat cnt1)
                          (s1\<lparr>fd_nonblock := (fd_nonblock s1)(fd := Some False)\<rparr>)
                   else (len, s1\<lparr>errno := fcntl_errno s1\<rparr>))
         else (len, s1))"

definition write_buffer :: "int \<Rightarrow> ptr \<Rightarrow> unsigned \<Rightarrow> gz \<Rightarrow> int \<times> gz" where
  "write_buffer fd buf cnt s =
     sys_write fd buf (unat (if INT_MAX < cnt then INT_MAX else cnt)) s"

subsection \<open>Writing a buffer\<close>

text \<open>
  The loop of \<open>write_buf\<close>.  \<open>n\<close> is the result of \<open>write_buffer\<close> converted to
  \<open>unsigned\<close>; \<open>write_error\<close> does not return.  A writer that forever accepts
  nothing keeps the loop running: the result is \<open>None\<close> then.
\<close>

partial_function (option) write_loop :: "int \<Rightarrow> ptr \<Rightarrow> unsigned \<Rightarrow> gz \<Rightarrow> unit res option" where
  "write_loop fd buf cnt s =
     (case write_buffer fd buf cnt s of
        (r, s1) \<Rightarrow>
          if (word_of_int r :: unsigned) = cnt then Some (Inr ((), s1))
          else if (word_of_int r :: unsigned) = - 1 then Some (write_error s1)
          else write_loop fd (fst buf, snd buf + unat (word_of_int r :: unsigned))
                 (cnt - word_of_int r) s1)"

definition write_buf :: "int \<Rightarrow> ptr \<Rightarrow> unsigned \<Rightarrow> gz \<Rightarrow> unit res option" where
  "write_buf fd buf cnt s =
     (let s1 = s\<lparr>bytes_out := bytes_out s + ucast cnt\<rparr>
      in if test s1 then Some (Inr ((), s1)) else write_loop fd buf cnt s1)"

definition flush_outbuf :: "gz \<Rightarrow> unit res option" where
  "flush_outbuf s =
     (if outcnt s = 0 then Some (Inr ((), s))
      else bind_res (write_buf (ofd s) (OutBuf, 0) (outcnt s) s)
             (\<lambda>_ s1. Some (Inr ((), s1\<lparr>outcnt := 0\<rparr>))))"

definition flush_window :: "gz \<Rightarrow> unit res option" where
  "flush_window s =
     (if outcnt s = 0 then Some (Inr ((), s))
      else (case updcrc (Some (Window, 0)) (outcnt s) s of
              (c, s1) \<Rightarrow>
                bind_res (write_buf (ofd s1) (Window, 0) (outcnt s1) s1)
                  (\<lambda>_ s2. Some (Inr ((), s2\<lparr>outcnt := 0\<rparr>)))))"

subsection \<open>Filling the input buffer\<close>

text \<open>
  The do-while loop of \<open>fill_inbuf\<close>.  \<open>read_error\<close> does not return, so the
  \<open>break\<close> after it is never reached.
\<close>

partial_function (option) fill_loop :: "gz \<Rightarrow> unit res option" where
  "fill_loop s =
     (case read_buffer (ifd s) (InBuf, unat (insize s)) (INBUFSIZ s - insize s) s of
        (len, s1) \<Rightarrow>
          if len = 0 then Some (Inr ((), s1))
          else if len = - 1 then Some (read_error s1)
          else if insize s1 + word_of_int len < INBUFSIZ s1
          then fill_loop (s1\<lparr>insize := insize s1 + word_of_int len\<rparr>)
          else Some (Inr ((), s1\<lparr>insize := insize s1 + word_of_int len\<rparr>)))"

definition fill_inbuf :: "bool \<Rightarrow> gz \<Rightarrow> int res option" where
  "fill_inbuf eof_ok s =
     bind_res (fill_loop (s\<lparr>insize := 0\<rparr>))
       (\<lambda>_ s1.
          if insize s1 = 0
          then (if eof_ok then Some (Inr (EOF, s1))
                else bind_res (flush_window s1)
                       (\<lambda>_ s2. Some (read_error (s2\<lparr>errno := 0\<rparr>))))
          else Some (Inr (uint (inbuf s1 ! 0),
                          s1\<lparr>bytes_in := bytes_in s1 + ucast (insize s1), inptr := 1\<rparr>)))"

subsection \<open>Copying input to output\<close>

partial_function (option) copy_loop :: "int \<Rightarrow> int \<Rightarrow> gz \<Rightarrow> unit res option" where
  "copy_loop in_fd out_fd s =
     (if inptr s < insize s
      then Option.bind (write_buf out_fd (InBuf, unat (inptr s)) (insize s - inptr s) s)
             (\<lambda>w. case w of
                     Inl e \<Rightarrow> Some (Inl e)
                   | Inr (u, s1) \<Rightarrow>
                       (case read_buffer in_fd (InBuf, 0) (INBUFSIZ s1) s1 of
                          (got, s2) \<Rightarrow>
                            if got = - 1 then Some (read_error s2)
                            else copy_loop in_fd out_fd
                                   (s2\<lparr>bytes_in := bytes_in s2 + word_of_int got,
                                       insize := word_of_int got,
                                       inptr := 0\<rparr>)))
      else Some (Inr ((), s)))"

definition copy :: "int \<Rightarrow> int \<Rightarrow> gz \<Rightarrow> exitcode res option" where
  "copy in_fd out_fd s =
     bind_res (copy_loop in_fd out_fd (s\<lparr>errno := 0\<rparr>)) (\<lambda>_ s1. Some (Inr (OK, s1)))"

subsection \<open>Sequences of operations\<close>

text \<open>
  Modelled from the spec: the codec is outside util.c, "an external component
  that drains the input buffer and fills the output buffer/window".  Its effect
  on the output side is to put bytes at the start of the window or of the output
  buffer and to set \<open>outcnt\<close> to their number.
\<close>

definition put_window :: "uch list \<Rightarrow> gz \<Rightarrow> gz" where
  "put_window bs s = (store (Window, 0) bs s)\<lparr>outcnt := of_nat (length bs)\<rparr>"

definition put_outbuf :: "uch list \<Rightarrow> gz \<Rightarrow> gz" where
  "put_outbuf bs s = (store (OutBuf, 0) bs s)\<lparr>outcnt := of_nat (length bs)\<rparr>"

datatype op =
    Fill_inbuf bool
  | Flush_outbuf
  | Flush_window
  | Put_window "uch list"
  | Put_outbuf "uch list"
  | Updcrc "ptr option" unsigned
  | Clear_bufs

text \<open>
  One operation, and a sequence of them; the values are those the refills
  returned.  A sequence stops at the first operation that leaves the process.
\<close>

fun step :: "op \<Rightarrow> gz \<Rightarrow> int list res option" where
  "step (Fill_inbuf eof_ok) s = bind_res (fill_inbuf eof_ok s) (\<lambda>v s1. Some (Inr ([v], s1)))"
| "step Flush_outbuf s = bind_res (flush_outbuf s) (\<lambda>_ s1. Some (Inr ([], s1)))"
| "step Flush_window s = bind_res (flush_window s) (\<lambda>_ s1. Some (Inr ([], s1)))"
| "step (Put_window bs) s = Some (Inr ([], put_window bs s))"
| "step (Put_outbuf bs) s = Some (Inr ([], put_outbuf bs s))"
| "step (Updcrc p n) s = Some (Inr ([], snd (updcrc p n s)))"
| "step Clear_bufs s = Some (Inr ([], clear_bufs s))"

fun run :: "op list \<Rightarrow> gz \<Rightarrow> int list res option" where
  "run [] s = Some (Inr ([], s))"
| "run (x # xs) s =
     bind_res (step x s)
       (\<lambda>vs s1. bind_res (run xs s1) (\<lambda>ws s2. Some (Inr (vs @ ws, s2))))"

text \<open>How a computation ended, without the state.\<close>

definition outcome :: "'a res option \<Rightarrow> (exit_info + 'a) option" where
  "outcome r = map_option (map_sum fst fst) r"

text \<open>The size of the input still pending on a descriptor.\<close>

fun ev_size :: "rd_event \<Rightarrow> nat" where
  "ev_size (RdData bs) = Suc (length bs)"
| "ev_size (RdFail e) = 1"

definition pending :: "gz \<Rightarrow> int \<Rightarrow> nat" where
  "pending s fd = sum_list (map ev_size (fd_in s fd))"

text \<open>
  Two states that differ at most in the test flag, the record of the writes and
  \<open>errno\<close>: \<open>io_upd\<close> sets these four fields.  \<open>res_io\<close> does so in a result.
\<close>

definition io_upd :: "bool \<Rightarrow> nat \<Rightarrow> (int \<Rightarrow> uch list) \<Rightarrow> int \<Rightarrow> gz \<Rightarrow> gz" where
  "io_upd a b c d s = s\<lparr>test := a, wr_calls := b, fd_out := c, errno := d\<rparr>"

definition res_io :: "bool \<Rightarrow> nat \<Rightarrow> (int \<Rightarrow> uch list) \<Rightarrow> int \<Rightarrow> 'a res \<Rightarrow> 'a res" where
  "res_io a b c d r =
     (case r of
        Inl (e, s) \<Rightarrow> Inl (e, io_upd a b c d s)
      | Inr (v, s) \<Rightarrow> Inr (v, io_upd a b c d s))"

fun write_failed :: "'a res \<Rightarrow> bool" where
  "write_failed (Inl (Finish_up_gzip x, s)) = True"
| "write_failed (Inl (Abort_gzip, s)) = False"
| "write_failed (Inr v) = False"

subsection \<open>Concrete data for evaluation\<close>

definition bytes_of :: "string \<Rightarrow> uch list" where
  "bytes_of cs = map (\<lambda>c. of_nat (of_char c)) cs"

fun occurs :: "'a list \<Rightarrow> 'a list \<Rightarrow> bool" where
  "occurs xs [] = (xs = [])"
| "occurs xs (y # ys) = (take (length xs) (y # ys) = xs \<or> occurs xs ys)"

text \<open>
  A small session: buffers of a few bytes, descriptor 0 for input (at end of
  file) and 1 for output, and a writer that accepts one byte per call.
\<close>

definition initial :: gz where
  "initial =
     \<lparr>crc = 0, inbuf = replicate 4 0, outbuf = replicate 8 0, window = replicate 8 0,
      insize = 0, inptr = 0, outcnt = 0, bytes_in = 0, bytes_out = 0,
      ifd = 0, ofd = 1, test = False, quiet = False,
      program_name = ''gzip'', ifname = ''stdin'', ofname = ''stdout'',
      errno = 0, stderr = [], INBUFSIZ = 4, EPIPE = 32, EAGAIN = 11,
      strerror = (\<lambda>e. if e = 32 then ''Broken pipe'' else ''Input/output error''),
      fd_in = (\<lambda>fd. []), fd_nonblock = (\<lambda>fd. Some True), setfl_ok = True,
      fcntl_errno = 9, wr_beh = (\<lambda>i. WrTake 1), wr_calls = 0, fd_out = (\<lambda>fd. [])\<rparr>"

text \<open>The session with a source whose first read fails, and with two bytes first.\<close>

definition read_fails_at_once :: gz where
  "read_fails_at_once = initial\<lparr>fd_in := (\<lambda>fd. [RdFail 5])\<rparr>"

definition read_fails_later :: gz where
  "read_fails_later = initial\<lparr>fd_in := (\<lambda>fd. [RdData (bytes_of ''ab''), RdFail 5])\<rparr>"

text \<open>The session with three bytes buffered, one of them consumed, and the source at end of file.\<close>

definition copy_at_eof :: gz where
  "copy_at_eof = initial\<lparr>inbuf := bytes_of ''abcd'', insize := 3, inptr := 1\<rparr>"

text \<open>The session with six bytes of input, in two chunks.\<close>

definition refill_data :: gz where
  "refill_data = initial\<lparr>fd_in := (\<lambda>fd. [RdData (bytes_of ''ba''), RdData (bytes_of ''nana'')])\<rparr>"

text \<open>The same, with five more bytes to come from the source.\<close>

definition copy_data :: gz where
  "copy_data = copy_at_eof\<lparr>fd_in := (\<lambda>fd. [RdData (bytes_of ''hello'')])\<rparr>"

section \<open>Properties\<close>

subsection \<open>Memory and machine words\<close>

lemma load_frame_io [simp]:
  "load p n (s\<lparr>wr_calls := a\<rparr>) = load p n s"
  "load p n (s\<lparr>fd_out := b\<rparr>) = load p n s"
  "load p n (s\<lparr>bytes_out := c\<rparr>) = load p n s"
  "load p n (s\<lparr>errno := d\<rparr>) = load p n s"
  "load p n (s\<lparr>test := e\<rparr>) = load p n s"
  "load p n (s\<lparr>crc := f\<rparr>) = load p n s"
  by (cases "fst p"; simp add: load_def)+

lemma load_split:
  "m \<le> n \<Longrightarrow> load buf m s @ load (fst buf, snd buf + m) (n - m) s = load buf n s"
proof -
  assume "m \<le> n"
  then have "take n xs = take m xs @ take (n - m) (drop m xs)" for xs :: "uch list"
    using take_add [of m "n - m" xs] by simp
  then show ?thesis
    by (simp add: load_def add.commute)
qed

lemma minus_one_unsigned: "(- 1 :: unsigned) = 4294967295"
  by simp

lemma unat_minus_one_unsigned: "unat (- 1 :: unsigned) = 4294967295"
  unfolding minus_one_unsigned by simp

lemma unat_INT_MAX: "unat INT_MAX = 2147483647"
  by (simp add: INT_MAX_def)

lemma unat_clamp:
  "unat (if INT_MAX < cnt then INT_MAX else cnt) = min (unat cnt) 2147483647"
  by (auto simp: word_less_nat_alt unat_INT_MAX)

subsection \<open>States up to the test flag and the writes\<close>

lemma store_fields [simp]:
  "test (store p bs s) = test s" "wr_calls (store p bs s) = wr_calls s"
  "fd_out (store p bs s) = fd_out s" "errno (store p bs s) = errno s"
  "fd_in (store p bs s) = fd_in s" "ifd (store p bs s) = ifd s" "ofd (store p bs s) = ofd s"
  "INBUFSIZ (store p bs s) = INBUFSIZ s" "EAGAIN (store p bs s) = EAGAIN s"
  "fd_nonblock (store p bs s) = fd_nonblock s" "setfl_ok (store p bs s) = setfl_ok s"
  "fcntl_errno (store p bs s) = fcntl_errno s" "insize (store p bs s) = insize s"
  "wr_beh (store p bs s) = wr_beh s" "bytes_in (store p bs s) = bytes_in s"
  "bytes_out (store p bs s) = bytes_out s" "crc (store p bs s) = crc s"
  "outcnt (store p bs s) = outcnt s" "inptr (store p bs s) = inptr s"
  "stderr (store p bs s) = stderr s" "quiet (store p bs s) = quiet s"
  "program_name (store p bs s) = program_name s" "ifname (store p bs s) = ifname s"
  "ofname (store p bs s) = ofname s" "strerror (store p bs s) = strerror s"
  "EPIPE (store p bs s) = EPIPE s"
  by (cases p; cases "fst p"; simp)+

lemma io_upd_fields [simp]:
  "test (io_upd a b c d s) = a" "wr_calls (io_upd a b c d s) = b"
  "fd_out (io_upd a b c d s) = c" "errno (io_upd a b c d s) = d"
  "fd_in (io_upd a b c d s) = fd_in s" "ifd (io_upd a b c d s) = ifd s"
  "ofd (io_upd a b c d s) = ofd s"
  "INBUFSIZ (io_upd a b c d s) = INBUFSIZ s" "EAGAIN (io_upd a b c d s) = EAGAIN s"
  "fd_nonblock (io_upd a b c d s) = fd_nonblock s" "setfl_ok (io_upd a b c d s) = setfl_ok s"
  "fcntl_errno (io_upd a b c d s) = fcntl_errno s" "insize (io_upd a b c d s) = insize s"
  "wr_beh (io_upd a b c d s) = wr_beh s" "bytes_in (io_upd a b c d s) = bytes_in s"
  "bytes_out (io_upd a b c d s) = bytes_out s" "crc (io_upd a b c d s) = crc s"
  "outcnt (io_upd a b c d s) = outcnt s" "inptr (io_upd a b c d s) = inptr s"
  "stderr (io_upd a b c d s) = stderr s" "quiet (io_upd a b c d s) = quiet s"
  "program_name (io_upd a b c d s) = program_name s" "ifname (io_upd a b c d s) = ifname s"
  "ofname (io_upd a b c d s) = ofname s" "strerror (io_upd a b c d s) = strerror s"
  "EPIPE (io_upd a b c d s) = EPIPE s"
  "inbuf (io_upd a b c d s) = inbuf s" "outbuf (io_upd a b c d s) = outbuf s"
  "window (io_upd a b c d s) = window s"
  by (simp_all add: io_upd_def)

lemma io_upd_push [simp]:
  "(io_upd a b c d s)\<lparr>fd_in := x1\<rparr> = io_upd a b c d (s\<lparr>fd_in := x1\<rparr>)"
  "(io_upd a b c d s)\<lparr>fd_nonblock := x2\<rparr> = io_upd a b c d (s\<lparr>fd_nonblock := x2\<rparr>)"
  "(io_upd a b c d s)\<lparr>inbuf := x3\<rparr> = io_upd a b c d (s\<lparr>inbuf := x3\<rparr>)"
  "(io_upd a b c d s)\<lparr>outbuf := x4\<rparr> = io_upd a b c d (s\<lparr>outbuf := x4\<rparr>)"
  "(io_upd a b c d s)\<lparr>window := x5\<rparr> = io_upd a b c d (s\<lparr>window := x5\<rparr>)"
  "(io_upd a b c d s)\<lparr>insize := x6\<rparr> = io_upd a b c d (s\<lparr>insize := x6\<rparr>)"
  "(io_upd a b c d s)\<lparr>inptr := x7\<rparr> = io_upd a b c d (s\<lparr>inptr := x7\<rparr>)"
  "(io_upd a b c d s)\<lparr>outcnt := x8\<rparr> = io_upd a b c d (s\<lparr>outcnt := x8\<rparr>)"
  "(io_upd a b c d s)\<lparr>bytes_in := x9\<rparr> = io_upd a b c d (s\<lparr>bytes_in := x9\<rparr>)"
  "(io_upd a b c d s)\<lparr>bytes_out := x10\<rparr> = io_upd a b c d (s\<lparr>bytes_out := x10\<rparr>)"
  "(io_upd a b c d s)\<lparr>crc := x11\<rparr> = io_upd a b c d (s\<lparr>crc := x11\<rparr>)"
  "(io_upd a b c d s)\<lparr>stderr := x12\<rparr> = io_upd a b c d (s\<lparr>stderr := x12\<rparr>)"
  by (simp_all add: io_upd_def)

lemma io_upd_absorb [simp]:
  "(io_upd a b c d s)\<lparr>errno := d'\<rparr> = io_upd a b c d' s"
  "(io_upd a b c d s)\<lparr>wr_calls := b'\<rparr> = io_upd a b' c d s"
  "(io_upd a b c d s)\<lparr>fd_out := c'\<rparr> = io_upd a b c' d s"
  "(io_upd a b c d s)\<lparr>test := a'\<rparr> = io_upd a' b c d s"
  "io_upd a b c d (s\<lparr>errno := d'\<rparr>) = io_upd a b c d s"
  "io_upd a b c d (s\<lparr>wr_calls := b'\<rparr>) = io_upd a b c d s"
  "io_upd a b c d (s\<lparr>fd_out := c'\<rparr>) = io_upd a b c d s"
  "io_upd a b c d (s\<lparr>test := a'\<rparr>) = io_upd a b c d s"
  "io_upd a b c d (io_upd a' b' c' d' s) = io_upd a b c d s"
  by (simp_all add: io_upd_def)

lemma io_upd_same: "io_upd (test s) (wr_calls s) (fd_out s) (errno s) s = s"
  by (simp add: io_upd_def)

lemma store_io_upd [simp]:
  "store p bs (io_upd a b c d s) = io_upd a b c d (store p bs s)"
  by (cases p; cases "fst p"; simp)

lemma load_io_upd [simp]: "load p n (io_upd a b c d s) = load p n s"
  by (simp add: io_upd_def)

lemma sys_read_io:
  "sys_read fd buf cnt (io_upd a b c d s) =
     (case sys_read fd buf cnt s of
        (len, s1) \<Rightarrow> (len, io_upd a b c (if len < 0 then errno s1 else d) s1))"
  by (auto simp: sys_read_def split: list.splits rd_event.splits)

lemma sys_read_errno:
  assumes "sys_read fd buf cnt s = (len, s1)" and "0 \<le> len"
  shows "errno s1 = errno s"
  using assms
  by (auto simp: sys_read_def split: list.splits rd_event.splits if_splits)

lemma sys_read_frame:
  assumes "sys_read fd buf cnt s = (len, s1)"
  shows "EAGAIN s1 = EAGAIN s" "fd_nonblock s1 = fd_nonblock s" "setfl_ok s1 = setfl_ok s"
    "fcntl_errno s1 = fcntl_errno s" "ifd s1 = ifd s" "INBUFSIZ s1 = INBUFSIZ s"
    "insize s1 = insize s"
  using assms
  by (auto simp: sys_read_def split: list.splits rd_event.splits if_splits)

lemma read_buffer_unfold:
  "read_buffer fd buf cnt s =
     (case sys_read fd buf (min (unat cnt) 2147483647) s of
        (len, s1) \<Rightarrow>
          if len < 0 \<and> errno s1 = EAGAIN s1
          then (case fd_nonblock s1 fd of
                  None \<Rightarrow> (len, s1\<lparr>errno := fcntl_errno s1\<rparr>)
                | Some nonblock \<Rightarrow>
                    if \<not> nonblock then (len, s1\<lparr>errno := EAGAIN s1\<rparr>)
                    else if setfl_ok s1
                    then sys_read fd buf (min (unat cnt) 2147483647)
                           (s1\<lparr>fd_nonblock := (fd_nonblock s1)(fd := Some False)\<rparr>)
                    else (len, s1\<lparr>errno := fcntl_errno s1\<rparr>))
          else (len, s1))"
  unfolding read_buffer_def Let_def unat_clamp ..

lemma read_buffer_io:
  assumes "read_buffer fd buf cnt s = (len, s1)"
  shows "\<exists>d'. read_buffer fd buf cnt (io_upd a b c d s) = (len, io_upd a b c d' s1)
              \<and> (len < 0 \<longrightarrow> d' = errno s1)"
proof -
  define n where "n = min (unat cnt) 2147483647"
  obtain l0 s0 where r0: "sys_read fd buf n s = (l0, s0)"
    by (cases "sys_read fd buf n s")
  note rb = read_buffer_unfold [of fd buf cnt, folded n_def]
  have t0: "sys_read fd buf n (io_upd a b c d s)
              = (l0, io_upd a b c (if l0 < 0 then errno s0 else d) s0)"
    by (simp add: sys_read_io r0)
  consider (plain) "\<not> (l0 < 0 \<and> errno s0 = EAGAIN s0)"
    | (nofl) "l0 < 0" "errno s0 = EAGAIN s0" "fd_nonblock s0 fd = None"
    | (blocking) "l0 < 0" "errno s0 = EAGAIN s0" "fd_nonblock s0 fd = Some False"
    | (setfl_fails) "l0 < 0" "errno s0 = EAGAIN s0" "fd_nonblock s0 fd = Some True" "\<not> setfl_ok s0"
    | (retry) "l0 < 0" "errno s0 = EAGAIN s0" "fd_nonblock s0 fd = Some True" "setfl_ok s0"
    by (cases "fd_nonblock s0 fd") auto
  then show ?thesis
  proof cases
    case plain
    then have "len = l0" "s1 = s0"
      using assms by (auto simp add: rb r0)
    moreover from plain have "read_buffer fd buf cnt (io_upd a b c d s)
              = (l0, io_upd a b c (if l0 < 0 then errno s0 else d) s0)"
      by (auto simp add: rb t0)
    ultimately show ?thesis by auto
  next
    case nofl
    then have "len = l0" "s1 = s0\<lparr>errno := fcntl_errno s0\<rparr>"
      using assms by (auto simp add: rb r0)
    moreover from nofl have "read_buffer fd buf cnt (io_upd a b c d s)
              = (l0, io_upd a b c (fcntl_errno s0) s0)"
      by (simp add: rb t0)
    ultimately show ?thesis by auto
  next
    case blocking
    then have "len = l0" "s1 = s0\<lparr>errno := EAGAIN s0\<rparr>"
      using assms by (auto simp add: rb r0)
    moreover from blocking have "read_buffer fd buf cnt (io_upd a b c d s)
              = (l0, io_upd a b c (EAGAIN s0) s0)"
      by (simp add: rb t0)
    ultimately show ?thesis by auto
  next
    case setfl_fails
    then have "len = l0" "s1 = s0\<lparr>errno := fcntl_errno s0\<rparr>"
      using assms by (auto simp add: rb r0)
    moreover from setfl_fails have "read_buffer fd buf cnt (io_upd a b c d s)
              = (l0, io_upd a b c (fcntl_errno s0) s0)"
      by (simp add: rb t0)
    ultimately show ?thesis by auto
  next
    case retry
    let ?s0' = "s0\<lparr>fd_nonblock := (fd_nonblock s0)(fd := Some False)\<rparr>"
    from retry assms have r1: "sys_read fd buf n ?s0' = (len, s1)"
      by (simp add: rb r0)
    from retry have "read_buffer fd buf cnt (io_upd a b c d s) =
            (len, io_upd a b c (if len < 0 then errno s1 else errno s0) s1)"
      by (simp add: rb sys_read_io r0 r1)
    then show ?thesis
      by auto
  qed
qed


lemma occurs_here: "occurs xs (xs @ ss)"
  by (cases "xs @ ss") (simp, metis append_eq_conv_conj occurs.simps(2))

lemma occurs_append: "occurs xs (ps @ xs @ ss)"
  by (induction ps) (simp_all add: occurs_here)

subsection \<open>The checksum\<close>

lemma crc32_update_append: "crc32_update (crc32_update v a) b = crc32_update v (a @ b)"
  by (simp add: crc32_update_def crc32_update_no_xor_def xor.assoc)

lemma crc32_update_Nil: "crc32_update v [] = v"
  by (simp add: crc32_update_def crc32_update_no_xor_def xor.assoc)

text \<open>
  C1. Streaming equivalence of the checksum: from any register value \<open>v\<close>,
  \<open>updcrc\<close> on a span \<open>a\<close> and then on a span \<open>b\<close> (both pointers non-null)
  leaves the same register, and returns the same value, as one call of \<open>updcrc\<close>
  on a span that holds \<open>a\<close> followed by \<open>b\<close>: the checksum of the
  concatenation.
\<close>

theorem updcrc_streaming:
  assumes "load pab (unat nab) s = load pa (unat na) s @ load pb (unat nb) s"
  shows "updcrc (Some pb) nb (snd (updcrc (Some pa) na (s\<lparr>crc := v\<rparr>)))
           = updcrc (Some pab) nab (s\<lparr>crc := v\<rparr>)
         \<and> fst (updcrc (Some pab) nab (s\<lparr>crc := v\<rparr>))
           = crc32_update v (load pa (unat na) s @ load pb (unat nb) s)
         \<and> crc32_update (crc32_update v a) b = crc32_update v (a @ b)"
  using assms by (simp add: updcrc_def Let_def crc32_update_append)

theorem updcrc_streaming_witness:
  "load (Window, 0) (unat (6 :: unsigned)) (initial\<lparr>window := bytes_of ''banana!!''\<rparr>)
     = load (Window, 0) (unat (3 :: unsigned)) (initial\<lparr>window := bytes_of ''banana!!''\<rparr>)
       @ load (Window, 3) (unat (3 :: unsigned)) (initial\<lparr>window := bytes_of ''banana!!''\<rparr>)
   \<and> fst (updcrc (Some (Window, 3)) 3
        (snd (updcrc (Some (Window, 0)) 3 (initial\<lparr>window := bytes_of ''banana!!'', crc := 0\<rparr>))))
     = fst (updcrc (Some (Window, 0)) 6 (initial\<lparr>window := bytes_of ''banana!!'', crc := 0\<rparr>))"
proof -
  have h: "load (Window, 0) (unat (6 :: unsigned)) (initial\<lparr>window := bytes_of ''banana!!''\<rparr>)
     = load (Window, 0) (unat (3 :: unsigned)) (initial\<lparr>window := bytes_of ''banana!!''\<rparr>)
       @ load (Window, 3) (unat (3 :: unsigned)) (initial\<lparr>window := bytes_of ''banana!!''\<rparr>)"
    by (simp add: load_def bytes_of_def)
  show ?thesis
    using h updcrc_streaming [OF h, of 0] by simp
qed

text \<open>
  C9. The reset sentinel is the null pointer, not the zero length: for every
  length \<open>n\<close>, \<open>updcrc (NULL, n)\<close> sets the register to 0 whatever it held and
  returns 0, while \<open>updcrc (s, 0)\<close> with a non-null \<open>s\<close> returns the register and
  leaves the state as it was.
\<close>

theorem updcrc_reset_sentinel:
  "updcrc None n s = (0, s\<lparr>crc := 0\<rparr>) \<and> updcrc (Some p) 0 s = (crc s, s)"
  by (simp add: updcrc_def Let_def load_def crc32_update_Nil)

subsection \<open>Clearing the buffers\<close>

text \<open>
  C10. \<open>clear_bufs\<close> sets the pending output count, the fill and consume
  cursors of the input buffer and both byte counters to zero, and changes nothing
  else: the checksum register keeps its value, and is reset only by a call of
  \<open>updcrc\<close> with the null pointer.
\<close>

theorem clear_bufs_frame:
  "outcnt (clear_bufs s) = 0 \<and> insize (clear_bufs s) = 0 \<and> inptr (clear_bufs s) = 0
   \<and> bytes_in (clear_bufs s) = 0 \<and> bytes_out (clear_bufs s) = 0
   \<and> crc (clear_bufs s) = crc s
   \<and> getcrc (clear_bufs s) = getcrc s
   \<and> crc (snd (updcrc None n (clear_bufs s))) = 0
   \<and> clear_bufs s = s\<lparr>outcnt := 0, insize := 0, inptr := 0, bytes_in := 0, bytes_out := 0\<rparr>"
  by (simp add: clear_bufs_def updcrc_def getcrc_def)

subsection \<open>Error handlers\<close>

text \<open>
  C7. Classification of a write failure.  When \<open>errno\<close> is \<open>EPIPE\<close> (the reader
  went away), \<open>write_error\<close> leaves through \<open>finish_up_gzip\<close> with \<open>WARNING\<close>, and
  prints its diagnostic unless \<open>quiet\<close> is set; for every other \<open>errno\<close> it leaves
  with \<open>ERROR\<close> and always prints the diagnostic.  In both cases it does not
  return.
\<close>

theorem write_error_classification:
  "(errno s = EPIPE s \<longrightarrow>
      write_error s =
        (Inl (Finish_up_gzip WARNING,
              if quiet s then s
              else s\<lparr>stderr := stderr s @ diagnostic (program_name s) (ofname s)
                                   (strerror s (errno s))\<rparr>) :: unit res))
   \<and> (errno s \<noteq> EPIPE s \<longrightarrow>
      write_error s =
        (Inl (Finish_up_gzip ERROR,
              s\<lparr>stderr := stderr s @ diagnostic (program_name s) (ofname s)
                                   (strerror s (errno s))\<rparr>) :: unit res))"
  by (simp add: write_error_def)

theorem write_error_classification_witness:
  "errno (initial\<lparr>errno := 32, quiet := True\<rparr>) = EPIPE (initial\<lparr>errno := 32, quiet := True\<rparr>)
   \<and> (write_error (initial\<lparr>errno := 32, quiet := True\<rparr>) :: unit res)
       = Inl (Finish_up_gzip WARNING, initial\<lparr>errno := 32, quiet := True\<rparr>)
   \<and> errno (initial\<lparr>errno := 5, quiet := True\<rparr>) \<noteq> EPIPE (initial\<lparr>errno := 5, quiet := True\<rparr>)
   \<and> (\<exists>s'. (write_error (initial\<lparr>errno := 5, quiet := True\<rparr>) :: unit res)
              = Inl (Finish_up_gzip ERROR, s')
          \<and> stderr s' = [CHR 0x0A] @ ''gzip: stdout: Input/output error'' @ [CHR 0x0A])"
  using write_error_classification [of "initial\<lparr>errno := 32, quiet := True\<rparr>"]
        write_error_classification [of "initial\<lparr>errno := 5, quiet := True\<rparr>"]
  by (simp add: initial_def diagnostic_def)

text \<open>
  C8, as the code has it.  \<open>xalloc_die\<close> always leaves through \<open>abort_gzip\<close>,
  after printing one fixed line that holds the program name and the text
  \<open>memory_exhausted\<close> (with an underscore) and no file name.
\<close>

theorem xalloc_die_fatal:
  "(xalloc_die s :: unit res) =
     Inl (Abort_gzip,
          s\<lparr>stderr := stderr s @ [CHR 0x0A] @ program_name s @ '': memory_exhausted'' @ [CHR 0x0A]\<rparr>)
   \<and> occurs ''memory_exhausted'' (stderr (res_state (xalloc_die s :: unit res)))"
proof -
  have "occurs ''memory_exhausted''
          ((stderr s @ [CHR 0x0A] @ program_name s @ '': '') @ ''memory_exhausted'' @ [CHR 0x0A])"
    by (rule occurs_append)
  then show ?thesis
    by (simp add: xalloc_die_def res_state_def)
qed

text \<open>
  C8, as the claim has it: the line printed contains the text
  \<open>memory exhausted\<close>.  It does not.
\<close>

theorem xalloc_die_message_counterexample:
  "\<not> occurs ''memory exhausted'' (stderr (res_state (xalloc_die initial :: unit res)))"
  by (simp add: xalloc_die_def res_state_def initial_def)

subsection \<open>Writing a buffer\<close>

lemma write_buffer_take:
  assumes "wr_beh s (wr_calls s) = WrTake k"
  shows "\<exists>m. write_buffer fd buf cnt s =
               (int m, s\<lparr>wr_calls := Suc (wr_calls s),
                         fd_out := (fd_out s)(fd := fd_out s fd @ load buf m s)\<rparr>)
             \<and> m \<le> unat cnt \<and> m \<le> 2147483647 \<and> (0 < k \<longrightarrow> cnt \<noteq> 0 \<longrightarrow> 0 < m)"
proof -
  let ?m = "min k (min (unat cnt) 2147483647)"
  have "write_buffer fd buf cnt s =
               (int ?m, s\<lparr>wr_calls := Suc (wr_calls s),
                         fd_out := (fd_out s)(fd := fd_out s fd @ load buf ?m s)\<rparr>)"
    using assms unfolding write_buffer_def sys_write_def unat_clamp by simp
  moreover have "0 < k \<longrightarrow> cnt \<noteq> 0 \<longrightarrow> 0 < ?m"
    by (simp add: unat_gt_0)
  moreover have "?m \<le> unat cnt" "?m \<le> 2147483647"
    by simp_all
  ultimately show ?thesis
    by blast
qed

lemma write_loop_delivers:
  assumes "\<forall>i\<ge>wr_calls s. \<exists>k. 0 < k \<and> wr_beh s i = WrTake k"
  shows "\<exists>c. write_loop fd buf cnt s =
               Some (Inr ((), s\<lparr>wr_calls := c,
                                fd_out := (fd_out s)(fd := fd_out s fd @ load buf (unat cnt) s)\<rparr>))
             \<and> wr_calls s < c \<and> c \<le> wr_calls s + max 1 (unat cnt)"
  using assms
proof (induction "unat cnt" arbitrary: cnt buf s rule: less_induct)
  case less
  from less.prems obtain k where k: "0 < k" "wr_beh s (wr_calls s) = WrTake k"
    by blast
  from write_buffer_take [OF k(2), of fd buf cnt] k(1) obtain m where
    wb: "write_buffer fd buf cnt s =
           (int m, s\<lparr>wr_calls := Suc (wr_calls s),
                     fd_out := (fd_out s)(fd := fd_out s fd @ load buf m s)\<rparr>)"
    and m: "m \<le> unat cnt" "m \<le> 2147483647" "cnt \<noteq> 0 \<longrightarrow> 0 < m"
    by blast
  let ?s1 = "s\<lparr>wr_calls := Suc (wr_calls s),
               fd_out := (fd_out s)(fd := fd_out s fd @ load buf m s)\<rparr>"
  have n: "(word_of_int (int m) :: unsigned) = of_nat m"
    by simp
  have un: "unat (of_nat m :: unsigned) = m"
    using m(1) by (rule le_unat_uoi)
  have not_err: "(of_nat m :: unsigned) \<noteq> - 1"
  proof
    assume "(of_nat m :: unsigned) = - 1"
    then have "unat (of_nat m :: unsigned) = unat (- 1 :: unsigned)" by simp
    with un m(2) show False by (simp add: unat_minus_one_unsigned)
  qed
  show ?case
  proof (cases "(of_nat m :: unsigned) = cnt")
    case True
    then have "unat cnt = m" using un by simp
    then have "write_loop fd buf cnt s =
        Some (Inr ((), s\<lparr>wr_calls := Suc (wr_calls s),
                fd_out := (fd_out s)(fd := fd_out s fd @ load buf (unat cnt) s)\<rparr>))"
      by (subst write_loop.simps) (simp add: wb n True)
    then show ?thesis
      by (intro exI [of _ "Suc (wr_calls s)"]) simp
  next
    case False
    then have ne: "m \<noteq> unat cnt" by auto
    with m(1) have lt: "m < unat cnt" by simp
    then have "cnt \<noteq> 0" by (auto simp: unat_gt_0)
    with m(3) have pos: "0 < m" by simp
    have le: "(of_nat m :: unsigned) \<le> cnt"
      using m(1) un by (simp add: word_le_nat_alt)
    have usub: "unat (cnt - of_nat m) = unat cnt - m"
      using le un by (simp add: unat_sub)
    have smaller: "unat (cnt - of_nat m) < unat cnt"
      using usub pos lt by simp
    have prog: "\<forall>i\<ge>wr_calls ?s1. \<exists>k. 0 < k \<and> wr_beh ?s1 i = WrTake k"
      using less.prems by simp
    from less.hyps [OF smaller prog, of "(fst buf, snd buf + m)"] obtain c where
      rec: "write_loop fd (fst buf, snd buf + m) (cnt - of_nat m) ?s1 =
              Some (Inr ((), ?s1\<lparr>wr_calls := c,
                     fd_out := (fd_out ?s1)(fd := fd_out ?s1 fd
                        @ load (fst buf, snd buf + m) (unat (cnt - of_nat m)) ?s1)\<rparr>))"
      and c: "wr_calls ?s1 < c" "c \<le> wr_calls ?s1 + max 1 (unat (cnt - of_nat m))"
      by blast
    have "write_loop fd buf cnt s =
            write_loop fd (fst buf, snd buf + m) (cnt - of_nat m) ?s1"
      by (subst write_loop.simps) (simp add: wb n un False not_err)
    also have "\<dots> = Some (Inr ((), s\<lparr>wr_calls := c,
                  fd_out := (fd_out s)(fd := fd_out s fd @ load buf (unat cnt) s)\<rparr>))"
      using rec load_split [of m "unat cnt" buf s] lt by (simp add: usub)
    finally show ?thesis
      using c usub lt pos by (intro exI [of _ c]) simp
  qed
qed

text \<open>
  C3. Short writes.  Outside test mode, with a writer whose every call succeeds
  and accepts at least one byte (possibly fewer than asked), \<open>write_buf\<close> returns
  normally for every count; the descriptor has then received exactly the
  requested bytes, in order; \<open>bytes_out\<close> has grown by the requested count, once:
  it is added before the loop starts and the loop leaves it alone; nothing else
  of the program state changes; and the loop has made at least one and at most
  \<open>max 1 cnt\<close> calls of \<open>write\<close>.
\<close>

theorem write_buf_short_writes:
  assumes "\<not> test s"
    and "\<forall>i\<ge>wr_calls s. \<exists>k. 0 < k \<and> wr_beh s i = WrTake k"
  shows "\<exists>c. write_buf fd buf cnt s =
               Some (Inr ((), s\<lparr>bytes_out := bytes_out s + ucast cnt, wr_calls := c,
                                fd_out := (fd_out s)(fd := fd_out s fd @ load buf (unat cnt) s)\<rparr>))
             \<and> wr_calls s < c \<and> c \<le> wr_calls s + max 1 (unat cnt)
             \<and> write_buf fd buf cnt s
                 = write_loop fd buf cnt (s\<lparr>bytes_out := bytes_out s + ucast cnt\<rparr>)"
proof -
  let ?s1 = "s\<lparr>bytes_out := bytes_out s + ucast cnt\<rparr>"
  have "\<forall>i\<ge>wr_calls ?s1. \<exists>k. 0 < k \<and> wr_beh ?s1 i = WrTake k"
    using assms(2) by simp
  from write_loop_delivers [OF this, of fd buf cnt] obtain c where
    "write_loop fd buf cnt ?s1 =
       Some (Inr ((), ?s1\<lparr>wr_calls := c,
               fd_out := (fd_out ?s1)(fd := fd_out ?s1 fd @ load buf (unat cnt) ?s1)\<rparr>))"
    "wr_calls ?s1 < c" "c \<le> wr_calls ?s1 + max 1 (unat cnt)"
    by blast
  then show ?thesis
    using assms(1) by (intro exI [of _ c]) (simp add: write_buf_def Let_def)
qed

theorem write_buf_short_writes_witness:
  "\<not> test (initial\<lparr>window := bytes_of ''banana!!''\<rparr>)
   \<and> wr_beh (initial\<lparr>window := bytes_of ''banana!!''\<rparr>) = (\<lambda>i. WrTake 1)
   \<and> (\<exists>s'. write_buf 1 (Window, 0) 6 (initial\<lparr>window := bytes_of ''banana!!''\<rparr>)
              = Some (Inr ((), s'))
          \<and> fd_out s' 1 = bytes_of ''banana'' \<and> bytes_out s' = 6 \<and> wr_calls s' \<le> 6)"
proof -
  let ?s = "initial\<lparr>window := bytes_of ''banana!!''\<rparr>"
  have h1: "\<not> test ?s"
    by (simp add: initial_def)
  have h2: "\<forall>i\<ge>wr_calls ?s. \<exists>k. 0 < k \<and> wr_beh ?s i = WrTake k"
    by (simp add: initial_def)
  from write_buf_short_writes [OF h1 h2, of 1 "(Window, 0)" 6] obtain c where
    c: "write_buf 1 (Window, 0) 6 ?s =
          Some (Inr ((), ?s\<lparr>bytes_out := bytes_out ?s + ucast (6 :: unsigned), wr_calls := c,
                  fd_out := (fd_out ?s)(1 := fd_out ?s 1 @ load (Window, 0) (unat (6 :: unsigned)) ?s)\<rparr>))"
      "c \<le> wr_calls ?s + max 1 (unat (6 :: unsigned))"
    by blast
  have "fd_out ?s 1 @ load (Window, 0) (unat (6 :: unsigned)) ?s = bytes_of ''banana''"
    by (simp add: initial_def load_def bytes_of_def)
  moreover have "bytes_out ?s + ucast (6 :: unsigned) = 6" "wr_calls ?s + max 1 (unat (6 :: unsigned)) = 6"
    by (simp_all add: initial_def)
  moreover have "wr_beh ?s = (\<lambda>i. WrTake 1)"
    by (simp add: initial_def)
  ultimately show ?thesis
    using h1 c by simp
qed

subsection \<open>The test flag\<close>

lemma write_buffer_frame:
  assumes "write_buffer fd buf cnt s = (r, s1)"
  shows "io_upd a b c d s1 = io_upd a b c d s"
  using assms
  by (auto simp: write_buffer_def sys_write_def split: wr_event.splits)

lemma write_error_exit: "\<exists>x s1. (write_error s :: unit res) = Inl (Finish_up_gzip x, s1)"
  by (simp add: write_error_def Let_def)

lemma write_loop_frame_aux:
  assumes "write_loop fd buf cnt s = Some r"
  shows "case r of
           Inl (e, s1) \<Rightarrow> \<exists>x. e = Finish_up_gzip x
         | Inr (u, s1) \<Rightarrow> \<forall>a b c d. io_upd a b c d s1 = io_upd a b c d s"
  using assms
proof (induction rule: write_loop.raw_induct [rotated 1, consumes 1])
  case (1 loop fd buf cnt s r)
  obtain n s1 where wb: "write_buffer fd buf cnt s = (n, s1)"
    by (cases "write_buffer fd buf cnt s")
  note fr = write_buffer_frame [OF wb]
  consider (finished) "(word_of_int n :: unsigned) = cnt"
    | (err) "(word_of_int n :: unsigned) \<noteq> cnt" "(word_of_int n :: unsigned) = - 1"
    | (again) "(word_of_int n :: unsigned) \<noteq> cnt" "(word_of_int n :: unsigned) \<noteq> - 1"
    by blast
  then show ?case
  proof cases
    case finished
    with 1(2) wb have "r = Inr ((), s1)" by simp
    then show ?thesis using fr by simp
  next
    case err
    with 1(2) wb have "r = write_error s1" by simp
    then show ?thesis using write_error_exit [of s1] by auto
  next
    case again
    with 1(2) wb have
      "loop fd (fst buf, snd buf + unat (word_of_int n :: unsigned)) (cnt - word_of_int n) s1 = Some r"
      by simp
    from 1(1) [OF this] show ?thesis
      using fr by (auto split: sum.splits)
  qed
qed

lemma write_loop_frame:
  assumes "write_loop fd buf cnt s = Some (Inr (u, s1))"
  shows "io_upd a b c d s1 = io_upd a b c d s"
  using write_loop_frame_aux [OF assms] by simp

lemma write_loop_exit:
  assumes "write_loop fd buf cnt s = Some (Inl (e, s1))"
  shows "\<exists>x. e = Finish_up_gzip x"
  using write_loop_frame_aux [OF assms] by simp

lemma write_buf_test:
  "test s \<Longrightarrow> write_buf fd buf cnt s = Some (Inr ((), s\<lparr>bytes_out := bytes_out s + ucast cnt\<rparr>))"
  by (simp add: write_buf_def Let_def)

lemma write_buf_io:
  assumes "write_buf fd buf cnt s = Some (Inr (u, s1))"
  shows "write_buf fd buf cnt (io_upd True b c d s) = Some (Inr (u, io_upd True b c d s1))"
proof (cases "test s")
  case True
  with assms show ?thesis
    by (auto simp: write_buf_def Let_def)
next
  case False
  with assms have "write_loop fd buf cnt (s\<lparr>bytes_out := bytes_out s + ucast cnt\<rparr>) = Some (Inr (u, s1))"
    by (simp add: write_buf_def Let_def)
  from write_loop_frame [OF this, of True b c d] show ?thesis
    by (simp add: write_buf_def Let_def)
qed

lemma write_buf_exit:
  assumes "write_buf fd buf cnt s = Some (Inl (e, s1))"
  shows "\<exists>x. e = Finish_up_gzip x"
  using assms write_loop_exit
  by (auto simp: write_buf_def Let_def split: if_splits)

lemma read_error_io: "read_error (io_upd a b c (errno s) s) = res_io a b c (errno s) (read_error s)"
  by (simp add: read_error_def res_io_def)

lemma fill_loop_io_aux:
  assumes "fill_loop s = Some r"
  shows "\<forall>d. \<exists>d'. fill_loop (io_upd a b c d s) = Some (res_io a b c d' r)"
  using assms
proof (induction rule: fill_loop.raw_induct [rotated 1, consumes 1])
  case (1 loop s r)
  obtain len s1 where rb:
    "read_buffer (ifd s) (InBuf, unat (insize s)) (INBUFSIZ s - insize s) s = (len, s1)"
    by (cases "read_buffer (ifd s) (InBuf, unat (insize s)) (INBUFSIZ s - insize s) s")
  show ?case
  proof
    fix d
    from read_buffer_io [OF rb, of a b c d] obtain d0 where rb':
      "read_buffer (ifd s) (InBuf, unat (insize s)) (INBUFSIZ s - insize s) (io_upd a b c d s)
         = (len, io_upd a b c d0 s1)"
      and d0: "len < 0 \<longrightarrow> d0 = errno s1"
      by blast
    consider (eof) "len = 0" | (err) "len = - 1"
      | (full) "len \<noteq> 0" "len \<noteq> - 1" "\<not> insize s1 + word_of_int len < INBUFSIZ s1"
      | (again) "len \<noteq> 0" "len \<noteq> - 1" "insize s1 + word_of_int len < INBUFSIZ s1"
      by blast
    then show "\<exists>d'. fill_loop (io_upd a b c d s) = Some (res_io a b c d' r)"
    proof cases
      case eof
      with 1(2) rb have "r = Inr ((), s1)" by simp
      moreover have "fill_loop (io_upd a b c d s) = Some (Inr ((), io_upd a b c d0 s1))"
        using eof rb' by (subst fill_loop.simps) simp
      ultimately show ?thesis by (auto simp: res_io_def)
    next
      case err
      with 1(2) rb have "r = read_error s1" by simp
      moreover have "fill_loop (io_upd a b c d s) = Some (read_error (io_upd a b c (errno s1) s1))"
        using err rb' d0 by (subst fill_loop.simps) simp
      ultimately show ?thesis by (auto simp: read_error_io)
    next
      case full
      with 1(2) rb have "r = Inr ((), s1\<lparr>insize := insize s1 + word_of_int len\<rparr>)" by simp
      moreover have "fill_loop (io_upd a b c d s)
          = Some (Inr ((), io_upd a b c d0 (s1\<lparr>insize := insize s1 + word_of_int len\<rparr>)))"
        using full rb' by (subst fill_loop.simps) simp
      ultimately show ?thesis by (auto simp: res_io_def)
    next
      case again
      with 1(2) rb have "loop (s1\<lparr>insize := insize s1 + word_of_int len\<rparr>) = Some r" by simp
      from 1(1) [OF this] obtain d' where
        "fill_loop (io_upd a b c d0 (s1\<lparr>insize := insize s1 + word_of_int len\<rparr>))
           = Some (res_io a b c d' r)"
        by blast
      moreover have "fill_loop (io_upd a b c d s)
          = fill_loop (io_upd a b c d0 (s1\<lparr>insize := insize s1 + word_of_int len\<rparr>))"
        using again rb' by (subst fill_loop.simps) simp
      ultimately show ?thesis by auto
    qed
  qed
qed


lemma res_io_simps [simp]:
  "res_io a b c d (Inl (e, s)) = Inl (e, io_upd a b c d s)"
  "res_io a b c d (Inr (v, s)) = Inr (v, io_upd a b c d s)"
  by (simp_all add: res_io_def)

lemma write_failed_res_io [simp]: "write_failed (res_io a b c d r) = write_failed r"
  by (cases r rule: write_failed.cases) (auto simp: res_io_def)

lemma write_failed_iff: "write_failed r \<longleftrightarrow> (\<exists>x s. r = Inl (Finish_up_gzip x, s))"
  by (cases r rule: write_failed.cases) simp_all

lemma bind_res_simps [simp]:
  "bind_res None f = None"
  "bind_res (Some (Inl e)) f = Some (Inl e)"
  "bind_res (Some (Inr (v, s))) f = f v s"
  by (simp_all add: bind_res_def)

lemma bind_res_Some:
  assumes "bind_res m f = Some r"
  obtains (exit_) e where "m = Some (Inl e)" "r = Inl e"
    | (next_) v s where "m = Some (Inr (v, s))" "f v s = Some r"
  using assms by (auto simp: bind_res_def split: option.splits sum.splits)

lemma updcrc_io [simp]:
  "updcrc p n (io_upd a b c d s) = (fst (updcrc p n s), io_upd a b c d (snd (updcrc p n s)))"
  by (cases p) (simp_all add: updcrc_def Let_def)

lemma write_buf_failed:
  assumes "write_buf fd buf cnt s = Some (Inl e)"
  shows "write_failed (Inl e :: unit res)"
  using write_buf_exit [of fd buf cnt s "fst e" "snd e"] assms
  by (cases e) auto

lemma flush_window_failed:
  assumes "flush_window s = Some (Inl e)"
  shows "write_failed (Inl e :: unit res)"
  using assms write_buf_failed
  by (auto simp: flush_window_def split_beta bind_res_def
           split: if_splits option.splits sum.splits)

lemma flush_outbuf_failed:
  assumes "flush_outbuf s = Some (Inl e)"
  shows "write_failed (Inl e :: unit res)"
  using assms write_buf_failed
  by (auto simp: flush_outbuf_def bind_res_def split: if_splits option.splits sum.splits)

lemma flush_window_io:
  assumes "flush_window s = Some r" and "\<not> write_failed r"
  shows "flush_window (io_upd True b c d s) = Some (res_io True b c d r)"
proof (cases "outcnt s = 0")
  case True
  with assms show ?thesis by (auto simp: flush_window_def)
next
  case False
  let ?s1 = "snd (updcrc (Some (Window, 0)) (outcnt s) s)"
  have s1: "outcnt ?s1 = outcnt s" "ofd ?s1 = ofd s"
    by (simp_all add: updcrc_def Let_def)
  from assms(1) False have
    b: "bind_res (write_buf (ofd s) (Window, 0) (outcnt s) ?s1)
          (\<lambda>_ s2. Some (Inr ((), s2\<lparr>outcnt := 0\<rparr>))) = Some r"
    by (simp add: flush_window_def split_beta s1)
  from b show ?thesis
  proof (cases rule: bind_res_Some)
    case (exit_ e)
    with assms(2) write_buf_failed [of "ofd s" "(Window, 0)" "outcnt s" ?s1 e]
    show ?thesis by (cases e; cases "fst e") auto
  next
    case (next_ v s2)
    from write_buf_io [OF next_(1), of b c d] next_(2) False show ?thesis
      by (auto simp add: flush_window_def split_beta s1)
  qed
qed

lemma flush_outbuf_io:
  assumes "flush_outbuf s = Some r" and "\<not> write_failed r"
  shows "flush_outbuf (io_upd True b c d s) = Some (res_io True b c d r)"
proof (cases "outcnt s = 0")
  case True
  with assms show ?thesis by (auto simp: flush_outbuf_def)
next
  case False
  from assms(1) False have
    b: "bind_res (write_buf (ofd s) (OutBuf, 0) (outcnt s) s)
          (\<lambda>_ s2. Some (Inr ((), s2\<lparr>outcnt := 0\<rparr>))) = Some r"
    by (simp add: flush_outbuf_def)
  from b show ?thesis
  proof (cases rule: bind_res_Some)
    case (exit_ e)
    with assms(2) write_buf_failed [of "ofd s" "(OutBuf, 0)" "outcnt s" s e]
    show ?thesis by (cases e; cases "fst e") auto
  next
    case (next_ v s2)
    from write_buf_io [OF next_(1), of b c d] next_(2) False show ?thesis
      by (auto simp add: flush_outbuf_def)
  qed
qed

lemma read_error_io0:
  "read_error (io_upd a b c 0 s) = res_io a b c 0 (read_error (s\<lparr>errno := 0\<rparr>))"
  by (simp add: read_error_def io_upd_def)

lemma fill_inbuf_io:
  assumes "fill_inbuf eof_ok s = Some r" and "\<not> write_failed r"
  shows "\<exists>d'. fill_inbuf eof_ok (io_upd True b c d s) = Some (res_io True b c d' r)"
proof -
  note b = assms(1) [unfolded fill_inbuf_def]
  from b show ?thesis
  proof (cases rule: bind_res_Some)
    case (exit_ e)
    from fill_loop_io_aux [OF exit_(1), of True b c] obtain d0 where
      "fill_loop (io_upd True b c d (s\<lparr>insize := 0\<rparr>)) = Some (res_io True b c d0 (Inl e))"
      by blast
    with exit_(2) show ?thesis
      by (cases e) (auto simp: fill_inbuf_def)
  next
    case (next_ v s1)
    from fill_loop_io_aux [OF next_(1), of True b c] obtain d0 where
      l: "fill_loop (io_upd True b c d (s\<lparr>insize := 0\<rparr>)) = Some (Inr (v, io_upd True b c d0 s1))"
      by auto
    consider (eof) "insize s1 = 0" "eof_ok" | (unexpected) "insize s1 = 0" "\<not> eof_ok"
      | (data) "insize s1 \<noteq> 0"
      by blast
    then show ?thesis
    proof cases
      case eof
      with next_(2) l show ?thesis
        by (auto simp: fill_inbuf_def)
    next
      case unexpected
      with next_(2) have
        b2: "bind_res (flush_window s1) (\<lambda>_ s2. Some (read_error (s2\<lparr>errno := 0\<rparr>))) = Some r"
        by simp
      from b2 show ?thesis
      proof (cases rule: bind_res_Some)
        case (exit_ e)
        from flush_window_failed [OF exit_(1)] exit_(2) assms(2)
        show ?thesis
          by (cases e; cases "fst e") auto
      next
        case (next_ u s2)
        have "\<not> write_failed (Inr (u, s2) :: unit res)" by simp
        from flush_window_io [OF next_(1) this, of b c d0] next_(2) unexpected l
        show ?thesis
          by (auto simp: fill_inbuf_def read_error_io0)
      qed
    next
      case data
      with next_(2) l show ?thesis
        by (auto simp: fill_inbuf_def)
    qed
  qed
qed


lemma res_io_fixed:
  assumes "r = res_io a b c d r"
  shows "test (res_state r) = a" "wr_calls (res_state r) = b" "fd_out (res_state r) = c"
proof -
  from assms have "res_state r = io_upd a b c d (res_state r)"
    by (cases r) (auto simp: res_state_def)
  then have "test (res_state r) = test (io_upd a b c d (res_state r))"
    "wr_calls (res_state r) = wr_calls (io_upd a b c d (res_state r))"
    "fd_out (res_state r) = fd_out (io_upd a b c d (res_state r))"
    by simp_all
  then show "test (res_state r) = a" "wr_calls (res_state r) = b" "fd_out (res_state r) = c"
    by simp_all
qed

lemma res_state_res_io [simp]: "res_state (res_io a b c d r) = io_upd a b c d (res_state r)"
  by (cases r) (auto simp: res_state_def)

lemma outcome_res_io [simp]: "outcome (Some (res_io a b c d r)) = outcome (Some r)"
  by (cases r) (auto simp: outcome_def)

lemma fill_loop_frame:
  assumes "fill_loop s = Some r"
  shows "test (res_state r) = test s" "wr_calls (res_state r) = wr_calls s"
    "fd_out (res_state r) = fd_out s"
proof -
  from fill_loop_io_aux [OF assms, of "test s" "wr_calls s" "fd_out s"] obtain d' where
    "fill_loop (io_upd (test s) (wr_calls s) (fd_out s) (errno s) s)
       = Some (res_io (test s) (wr_calls s) (fd_out s) d' r)"
    by blast
  with assms have "r = res_io (test s) (wr_calls s) (fd_out s) d' r"
    by (simp add: io_upd_same)
  from res_io_fixed [OF this]
  show "test (res_state r) = test s" "wr_calls (res_state r) = wr_calls s"
    "fd_out (res_state r) = fd_out s" .
qed

lemma read_error_not_failed [simp]: "\<not> write_failed (read_error s)"
  by (simp add: read_error_def)

lemma fill_loop_not_failed:
  assumes "fill_loop s = Some r"
  shows "\<not> write_failed r"
  using assms
proof (induction rule: fill_loop.raw_induct [rotated 1, consumes 1])
  case (1 loop s r)
  obtain len s1 where rb:
    "read_buffer (ifd s) (InBuf, unat (insize s)) (INBUFSIZ s - insize s) s = (len, s1)"
    by (cases "read_buffer (ifd s) (InBuf, unat (insize s)) (INBUFSIZ s - insize s) s")
  from 1(2) rb 1(1) show ?case
    by (auto split: if_splits)
qed

lemma flush_window_test:
  assumes "test s"
  shows "flush_window s =
           Some (Inr ((), if outcnt s = 0 then s
                          else s\<lparr>crc := crc32_update (crc s) (load (Window, 0) (unat (outcnt s)) s),
                                 bytes_out := bytes_out s + ucast (outcnt s),
                                 outcnt := 0\<rparr>))"
  using assms by (simp add: flush_window_def updcrc_def Let_def write_buf_def)

lemma flush_outbuf_test:
  assumes "test s"
  shows "flush_outbuf s =
           Some (Inr ((), if outcnt s = 0 then s
                          else s\<lparr>bytes_out := bytes_out s + ucast (outcnt s), outcnt := 0\<rparr>))"
  using assms by (simp add: flush_outbuf_def write_buf_def Let_def)

lemma write_failed_Inl:
  "write_failed (Inl e :: 'a res) \<longleftrightarrow> (\<exists>x s. e = (Finish_up_gzip x, s))"
  by (cases e; cases "fst e") auto

lemma fill_inbuf_test_not_failed:
  assumes "test s" and "fill_inbuf eof_ok s = Some r"
  shows "\<not> write_failed r"
proof -
  note b = assms(2) [unfolded fill_inbuf_def]
  from b show ?thesis
  proof (cases rule: bind_res_Some)
    case (exit_ e)
    with fill_loop_not_failed [OF exit_(1)] show ?thesis by (simp add: write_failed_Inl)
  next
    case (next_ v s1)
    from fill_loop_frame(1) [OF next_(1)] assms(1) have "test s1"
      by (simp add: res_state_def)
    from next_(2) flush_window_test [OF this] show ?thesis
      by (auto split: if_splits)
  qed
qed

lemma step_test_not_failed:
  assumes "test s" and "step x s = Some r"
  shows "\<not> write_failed r"
proof (cases x)
  case (Fill_inbuf eof_ok)
  with assms(2) have b: "bind_res (fill_inbuf eof_ok s) (\<lambda>v s1. Some (Inr ([v], s1))) = Some r"
    by simp
  from b show ?thesis
  proof (cases rule: bind_res_Some)
    case (exit_ e)
    with fill_inbuf_test_not_failed [OF assms(1) exit_(1)] show ?thesis
      by (cases e; cases "fst e") auto
  next
    case (next_ v s1)
    then show ?thesis by auto
  qed
next
  case Flush_outbuf
  with assms flush_outbuf_test [OF assms(1)] show ?thesis by auto
next
  case Flush_window
  with assms flush_window_test [OF assms(1)] show ?thesis by auto
qed (use assms in auto)

lemma step_io:
  assumes "step x s = Some r" and "\<not> write_failed r"
  shows "\<exists>d'. step x (io_upd True b c d s) = Some (res_io True b c d' r)"
proof (cases x)
  case (Fill_inbuf eof_ok)
  with assms(1) have bd: "bind_res (fill_inbuf eof_ok s) (\<lambda>v s1. Some (Inr ([v], s1))) = Some r"
    by simp
  from bd show ?thesis
  proof (cases rule: bind_res_Some)
    case (exit_ e)
    with assms(2) have "\<not> write_failed (Inl e :: int res)"
      by (cases e; cases "fst e") auto
    from fill_inbuf_io [OF exit_(1) this, of b c d] exit_(2) Fill_inbuf show ?thesis
      by (cases e) auto
  next
    case (next_ v s1)
    have "\<not> write_failed (Inr (v, s1) :: int res)" by simp
    from fill_inbuf_io [OF next_(1) this, of b c d] next_(2) Fill_inbuf show ?thesis
      by auto
  qed
next
  case Flush_outbuf
  with assms(1) have bd: "bind_res (flush_outbuf s) (\<lambda>_ s1. Some (Inr ([], s1))) = Some r"
    by simp
  from bd show ?thesis
  proof (cases rule: bind_res_Some)
    case (exit_ e)
    with assms(2) flush_outbuf_failed [OF exit_(1)] show ?thesis
      by (cases e; cases "fst e") auto
  next
    case (next_ v s1)
    have "\<not> write_failed (Inr (v, s1) :: unit res)" by simp
    from flush_outbuf_io [OF next_(1) this, of b c d] next_(2) Flush_outbuf show ?thesis
      by auto
  qed
next
  case Flush_window
  with assms(1) have bd: "bind_res (flush_window s) (\<lambda>_ s1. Some (Inr ([], s1))) = Some r"
    by simp
  from bd show ?thesis
  proof (cases rule: bind_res_Some)
    case (exit_ e)
    with assms(2) flush_window_failed [OF exit_(1)] show ?thesis
      by (cases e; cases "fst e") auto
  next
    case (next_ v s1)
    have "\<not> write_failed (Inr (v, s1) :: unit res)" by simp
    from flush_window_io [OF next_(1) this, of b c d] next_(2) Flush_window show ?thesis
      by auto
  qed
next
  case (Put_window bs)
  with assms(1) show ?thesis by (auto simp: put_window_def)
next
  case (Put_outbuf bs)
  with assms(1) show ?thesis by (auto simp: put_outbuf_def)
next
  case (Updcrc p n)
  with assms(1) show ?thesis by auto
next
  case Clear_bufs
  with assms(1) show ?thesis by (auto simp: clear_bufs_def)
qed

lemma run_io:
  assumes "run ops s = Some r" and "\<not> write_failed r"
  shows "\<exists>d'. run ops (io_upd True b c d s) = Some (res_io True b c d' r)"
  using assms
proof (induction ops arbitrary: s r d)
  case Nil
  then show ?case by auto
next
  case (Cons x xs)
  from Cons.prems(1) have
    bd: "bind_res (step x s)
           (\<lambda>vs s1. bind_res (run xs s1) (\<lambda>ws s2. Some (Inr (vs @ ws, s2)))) = Some r"
    by simp
  from bd show ?case
  proof (cases rule: bind_res_Some)
    case (exit_ e)
    with Cons.prems(2) have "\<not> write_failed (Inl e :: int list res)" by simp
    from step_io [OF exit_(1) this, of b c d] exit_(2) show ?thesis
      by (cases e) auto
  next
    case (next_ vs s1)
    have "\<not> write_failed (Inr (vs, s1) :: int list res)" by simp
    from step_io [OF next_(1) this, of b c d] obtain d1 where
      st: "step x (io_upd True b c d s) = Some (Inr (vs, io_upd True b c d1 s1))"
      by auto
    from next_(2) show ?thesis
    proof (cases rule: bind_res_Some)
      case (exit_ e)
      with Cons.prems(2) have "\<not> write_failed (Inl e :: int list res)" by simp
      from Cons.IH [OF exit_(1) this, of d1] exit_(2) st show ?thesis
        by (cases e) auto
    next
      case (next_ ws s2)
      have "\<not> write_failed (Inr (ws, s2) :: int list res)" by simp
      from Cons.IH [OF next_(1) this, of d1] next_(2) st show ?thesis
        by auto
    qed
  qed
qed


lemma step_test_frame:
  assumes "test s" and "step x s = Some r"
  shows "test (res_state r) \<and> wr_calls (res_state r) = wr_calls s
         \<and> fd_out (res_state r) = fd_out s \<and> \<not> write_failed r"
proof -
  note nf = step_test_not_failed [OF assms]
  from step_io [OF assms(2) nf, of "wr_calls s" "fd_out s" "errno s"] obtain d' where
    "step x (io_upd True (wr_calls s) (fd_out s) (errno s) s)
       = Some (res_io True (wr_calls s) (fd_out s) d' r)"
    by blast
  moreover from assms(1) have "io_upd True (wr_calls s) (fd_out s) (errno s) s = s"
    using io_upd_same [of s] by simp
  ultimately have "r = res_io True (wr_calls s) (fd_out s) d' r"
    using assms(2) by simp
  from res_io_fixed [OF this] nf show ?thesis by simp
qed

lemma run_test_frame:
  assumes "test s" and "run ops s = Some r"
  shows "test (res_state r) \<and> wr_calls (res_state r) = wr_calls s
         \<and> fd_out (res_state r) = fd_out s \<and> \<not> write_failed r"
  using assms
proof (induction ops arbitrary: s r)
  case Nil
  then show ?case by (auto simp: res_state_def)
next
  case (Cons x xs)
  from Cons.prems(2) have
    bd: "bind_res (step x s)
           (\<lambda>vs s1. bind_res (run xs s1) (\<lambda>ws s2. Some (Inr (vs @ ws, s2)))) = Some r"
    by simp
  from bd show ?case
  proof (cases rule: bind_res_Some)
    case (exit_ e)
    from step_test_frame [OF Cons.prems(1) exit_(1)] exit_(2) show ?thesis
      by (cases e) (simp add: res_state_def)
  next
    case (next_ vs s1)
    from step_test_frame [OF Cons.prems(1) next_(1)] have
      s1: "test s1" "wr_calls s1 = wr_calls s" "fd_out s1 = fd_out s"
      by (simp_all add: res_state_def)
    from next_(2) show ?thesis
    proof (cases rule: bind_res_Some)
      case (exit_ e)
      from Cons.IH [OF s1(1) exit_(1)] exit_(2) s1 show ?thesis
        by (cases e) (simp add: res_state_def)
    next
      case (next_ ws s2)
      from Cons.IH [OF s1(1) next_(1)] next_(2) s1 show ?thesis
        by (auto simp add: res_state_def)
    qed
  qed
qed


lemma pending_simps [simp]:
  "pending (store p bs s) fd = pending s fd"
  "pending (s\<lparr>errno := e\<rparr>) fd = pending s fd"
  "pending (s\<lparr>fd_nonblock := g\<rparr>) fd = pending s fd"
  "pending (s\<lparr>insize := n\<rparr>) fd = pending s fd"
  by (simp_all add: pending_def)

lemma sys_read_pending:
  assumes "sys_read fd buf cnt s = (len, s1)"
  shows "pending s1 fd \<le> pending s fd" "0 < len \<Longrightarrow> pending s1 fd < pending s fd"
    "len = - 1 \<or> 0 \<le> len"
  using assms
  by (auto simp: sys_read_def pending_def split: list.splits rd_event.splits if_splits)

lemma read_buffer_pending:
  assumes "read_buffer fd buf cnt s = (len, s1)"
  shows "pending s1 fd \<le> pending s fd \<and> (0 < len \<longrightarrow> pending s1 fd < pending s fd)
         \<and> (len = - 1 \<or> 0 \<le> len) \<and> ifd s1 = ifd s"
proof -
  define n where "n = min (unat cnt) 2147483647"
  obtain l0 s0 where r0: "sys_read fd buf n s = (l0, s0)"
    by (cases "sys_read fd buf n s")
  note rb = read_buffer_unfold [of fd buf cnt, folded n_def]
  note p0 = sys_read_pending [OF r0] sys_read_frame(5) [OF r0]
  show ?thesis
  proof (cases "l0 < 0 \<and> errno s0 = EAGAIN s0 \<and> fd_nonblock s0 fd = Some True \<and> setfl_ok s0")
    case True
    let ?s0' = "s0\<lparr>fd_nonblock := (fd_nonblock s0)(fd := Some False)\<rparr>"
    from True assms have r1: "sys_read fd buf n ?s0' = (len, s1)"
      by (simp add: rb r0)
    note p1 = sys_read_pending [OF r1] sys_read_frame(5) [OF r1]
    from p0 p1 show ?thesis by auto
  next
    case False
    then have "len = l0 \<and> pending s1 fd = pending s0 fd \<and> ifd s1 = ifd s0"
      using assms by (auto simp add: rb r0 split: option.splits if_splits)
    with p0 show ?thesis by auto
  qed
qed

lemma fill_loop_total: "\<exists>r. fill_loop s = Some r"
proof (induction "pending s (ifd s)" arbitrary: s rule: less_induct)
  case less
  obtain len s1 where rb:
    "read_buffer (ifd s) (InBuf, unat (insize s)) (INBUFSIZ s - insize s) s = (len, s1)"
    by (cases "read_buffer (ifd s) (InBuf, unat (insize s)) (INBUFSIZ s - insize s) s")
  note p = read_buffer_pending [OF rb]
  show ?case
  proof (cases "len \<noteq> 0 \<and> len \<noteq> - 1 \<and> insize s1 + word_of_int len < INBUFSIZ s1")
    case True
    with p have "pending (s1\<lparr>insize := insize s1 + word_of_int len\<rparr>)
                   (ifd (s1\<lparr>insize := insize s1 + word_of_int len\<rparr>)) < pending s (ifd s)"
      by auto
    from less [OF this] True rb show ?thesis
      by (subst fill_loop.simps) simp
  next
    case False
    with rb show ?thesis
      by (subst fill_loop.simps) auto
  qed
qed

lemma fill_inbuf_test_total:
  assumes "test s"
  shows "\<exists>r. fill_inbuf eof_ok s = Some r"
proof -
  obtain r0 where r0: "fill_loop (s\<lparr>insize := 0\<rparr>) = Some r0"
    using fill_loop_total by blast
  show ?thesis
  proof (cases r0)
    case (Inl e)
    with r0 show ?thesis by (simp add: fill_inbuf_def)
  next
    case (Inr vs)
    obtain v s1 where vs: "vs = (v, s1)" by (cases vs)
    from fill_loop_frame(1) [OF r0] assms Inr vs have "test s1"
      by (simp add: res_state_def)
    from flush_window_test [OF this] r0 Inr vs show ?thesis
      by (simp add: fill_inbuf_def)
  qed
qed

lemma step_test_total:
  assumes "test s"
  shows "\<exists>r. step x s = Some r"
proof (cases x)
  case (Fill_inbuf eof_ok)
  from fill_inbuf_test_total [OF assms, of eof_ok] obtain r where "fill_inbuf eof_ok s = Some r"
    by blast
  with Fill_inbuf show ?thesis
    by (cases r) auto
next
  case Flush_outbuf
  with flush_outbuf_test [OF assms] show ?thesis by simp
next
  case Flush_window
  with flush_window_test [OF assms] show ?thesis by simp
qed simp_all

lemma run_test_total:
  assumes "test s"
  shows "\<exists>r. run ops s = Some r"
  using assms
proof (induction ops arbitrary: s)
  case Nil
  show ?case by simp
next
  case (Cons x xs)
  from step_test_total [OF Cons.prems, of x] obtain r1 where r1: "step x s = Some r1"
    by blast
  show ?case
  proof (cases r1)
    case (Inl e)
    with r1 show ?thesis by simp
  next
    case (Inr vs)
    obtain v s1 where vs: "vs = (v, s1)" by (cases vs)
    from step_test_frame [OF Cons.prems r1] Inr vs have "test s1"
      by (simp add: res_state_def)
    from Cons.IH [OF this] obtain r2 where "run xs s1 = Some r2" by blast
    with r1 Inr vs show ?thesis
      by (cases r2) auto
  qed
qed


lemma flush_window_delivers:
  assumes "\<not> test s" and "outcnt s \<noteq> 0"
    and "\<forall>i\<ge>wr_calls s. \<exists>k. 0 < k \<and> wr_beh s i = WrTake k"
  shows "\<exists>c. flush_window s =
               Some (Inr ((), s\<lparr>crc := crc32_update (crc s) (load (Window, 0) (unat (outcnt s)) s),
                                bytes_out := bytes_out s + ucast (outcnt s),
                                wr_calls := c,
                                fd_out := (fd_out s)(ofd s := fd_out s (ofd s)
                                             @ load (Window, 0) (unat (outcnt s)) s),
                                outcnt := 0\<rparr>))
             \<and> wr_calls s < c"
proof -
  let ?s1 = "s\<lparr>crc := crc32_update (crc s) (load (Window, 0) (unat (outcnt s)) s),
               bytes_out := bytes_out s + ucast (outcnt s)\<rparr>"
  have "\<forall>i\<ge>wr_calls ?s1. \<exists>k. 0 < k \<and> wr_beh ?s1 i = WrTake k"
    using assms(3) by simp
  from write_loop_delivers [OF this, of "ofd s" "(Window, 0)" "outcnt s"] obtain c where
    "write_loop (ofd s) (Window, 0) (outcnt s) ?s1 =
       Some (Inr ((), ?s1\<lparr>wr_calls := c,
               fd_out := (fd_out ?s1)(ofd s := fd_out ?s1 (ofd s)
                            @ load (Window, 0) (unat (outcnt s)) ?s1)\<rparr>))"
    "wr_calls ?s1 < c"
    by blast
  then show ?thesis
    using assms(1,2)
    by (intro exI [of _ c]) (simp add: flush_window_def updcrc_def Let_def write_buf_def)
qed

text \<open>
  C2. Test-mode invariance.  For every sequence of operations and every state
  (so every input stream), the run with the test flag set returns; it has made
  no call of \<open>write\<close> and no descriptor has received a byte; \<open>write_buf\<close> itself
  returns after adding the count to \<open>bytes_out\<close>, before \<open>write_buffer\<close>.  And
  whenever the run with the test flag clear, on the same input, ends without a
  write failure (it returns, or stops at a read error), the test-mode run ends
  the same way, with the same values returned by the refills and the same
  \<open>bytes_in\<close>, \<open>bytes_out\<close> and checksum.
\<close>

theorem test_mode_invariance:
  "\<exists>t. run ops (s\<lparr>test := True\<rparr>) = Some t
       \<and> wr_calls (res_state t) = wr_calls s
       \<and> fd_out (res_state t) = fd_out s
       \<and> \<not> write_failed t
       \<and> write_buf fd buf cnt (s\<lparr>test := True\<rparr>)
           = Some (Inr ((), s\<lparr>test := True, bytes_out := bytes_out s + ucast cnt\<rparr>))
       \<and> (\<forall>r. run ops (s\<lparr>test := False\<rparr>) = Some r \<and> \<not> write_failed r \<longrightarrow>
              outcome (Some t) = outcome (Some r)
            \<and> bytes_in (res_state t) = bytes_in (res_state r)
            \<and> bytes_out (res_state t) = bytes_out (res_state r)
            \<and> crc (res_state t) = crc (res_state r)
            \<and> getcrc (res_state t) = getcrc (res_state r))"
proof -
  obtain t where t: "run ops (s\<lparr>test := True\<rparr>) = Some t"
    using run_test_total [of "s\<lparr>test := True\<rparr>" ops] by auto
  have fr: "wr_calls (res_state t) = wr_calls s" "fd_out (res_state t) = fd_out s"
    "\<not> write_failed t"
    using run_test_frame [OF _ t] by simp_all
  have eq: "io_upd True (wr_calls s) (fd_out s) (errno s) (s\<lparr>test := False\<rparr>) = s\<lparr>test := True\<rparr>"
    by (simp add: io_upd_def)
  have sim: "outcome (Some t) = outcome (Some r)
            \<and> bytes_in (res_state t) = bytes_in (res_state r)
            \<and> bytes_out (res_state t) = bytes_out (res_state r)
            \<and> crc (res_state t) = crc (res_state r)
            \<and> getcrc (res_state t) = getcrc (res_state r)"
    if r: "run ops (s\<lparr>test := False\<rparr>) = Some r" "\<not> write_failed r" for r
  proof -
    from run_io [OF r, of "wr_calls s" "fd_out s" "errno s"] obtain d' where
      "run ops (s\<lparr>test := True\<rparr>) = Some (res_io True (wr_calls s) (fd_out s) d' r)"
      unfolding eq by blast
    with t have "t = res_io True (wr_calls s) (fd_out s) d' r" by simp
    then show ?thesis by (simp add: getcrc_def)
  qed
  have wb: "write_buf fd buf cnt (s\<lparr>test := True\<rparr>)
           = Some (Inr ((), s\<lparr>test := True, bytes_out := bytes_out s + ucast cnt\<rparr>))"
    by (simp add: write_buf_def Let_def)
  from t fr wb sim show ?thesis by blast
qed

theorem test_mode_invariance_witness:
  "\<exists>t. run [Put_window (bytes_of ''ban''), Flush_window] (initial\<lparr>test := True\<rparr>) = Some t
       \<and> wr_calls (res_state t) = 0
       \<and> fd_out (res_state t) 1 = []
       \<and> bytes_out (res_state t) = 3
       \<and> crc (res_state t) = crc32_update 0 (bytes_of ''ban'')"
proof -
  let ?ops = "[Put_window (bytes_of ''ban''), Flush_window]"
  let ?s1 = "put_window (bytes_of ''ban'') (initial\<lparr>test := False\<rparr>)"
  have s1: "\<not> test ?s1" "outcnt ?s1 \<noteq> 0"
    "\<forall>i\<ge>wr_calls ?s1. \<exists>k. 0 < k \<and> wr_beh ?s1 i = WrTake k"
    by (simp_all add: put_window_def initial_def bytes_of_def)
  from flush_window_delivers [OF s1] obtain s2 where
    fl: "flush_window ?s1 = Some (Inr ((), s2))"
    and s2: "bytes_out s2 = bytes_out ?s1 + ucast (outcnt ?s1)"
      "crc s2 = crc32_update (crc ?s1) (load (Window, 0) (unat (outcnt ?s1)) ?s1)"
    by auto
  have real: "run ?ops (initial\<lparr>test := False\<rparr>) = Some (Inr ([], s2))"
    by (simp add: fl)
  have vals: "bytes_out s2 = 3" "crc s2 = crc32_update 0 (bytes_of ''ban'')"
    unfolding s2
    by (simp_all add: put_window_def initial_def bytes_of_def load_def overlay_def)
  from test_mode_invariance [of ?ops initial] obtain t where
    t: "run ?ops (initial\<lparr>test := True\<rparr>) = Some t"
      "wr_calls (res_state t) = wr_calls initial" "fd_out (res_state t) = fd_out initial"
      "\<forall>r. run ?ops (initial\<lparr>test := False\<rparr>) = Some r \<and> \<not> write_failed r \<longrightarrow>
              outcome (Some t) = outcome (Some r)
            \<and> bytes_in (res_state t) = bytes_in (res_state r)
            \<and> bytes_out (res_state t) = bytes_out (res_state r)
            \<and> crc (res_state t) = crc (res_state r)
            \<and> getcrc (res_state t) = getcrc (res_state r)"
    by blast
  from t(4) real have "bytes_out (res_state t) = bytes_out s2" "crc (res_state t) = crc s2"
    by (auto simp: res_state_def)
  with vals t(1,2,3) show ?thesis
    by (intro exI [of _ t]) (simp add: initial_def)
qed


subsection \<open>Filling the input buffer\<close>

lemma read_buffer_eof:
  assumes "fd_in s fd = []"
  shows "read_buffer fd buf cnt s = (0, s)"
  using assms by (simp add: read_buffer_unfold sys_read_def)

lemma read_buffer_fail:
  assumes "fd_in s fd = RdFail e # rest" and "e \<noteq> EAGAIN s"
  shows "read_buffer fd buf cnt s = (- 1, s\<lparr>errno := e, fd_in := (fd_in s)(fd := rest)\<rparr>)"
  using assms by (simp add: read_buffer_unfold sys_read_def)

lemma read_buffer_data:
  assumes "fd_in s fd = RdData bs # rest" and "length bs \<le> unat cnt" and "unat cnt \<le> 2147483647"
  shows "read_buffer fd buf cnt s =
           (int (length bs), store buf bs (s\<lparr>fd_in := (fd_in s)(fd := rest)\<rparr>))"
  using assms by (simp add: read_buffer_unfold sys_read_def min_def)

lemma read_error_aborts:
  "read_error s =
     Inl (Abort_gzip,
          s\<lparr>stderr := stderr s @ diagnostic (program_name s) (ifname s)
               (if errno s \<noteq> 0 then strerror s (errno s) else ''unexpected end of file'')\<rparr>)"
  by (simp add: read_error_def)

lemma fill_loop_data_then_fail:
  assumes "fd_in s (ifd s) = map RdData chunks @ RdFail e # rest"
    and "\<forall>c\<in>set chunks. c \<noteq> []"
    and "unat (insize s) + length (concat chunks) < unat (INBUFSIZ s)"
    and "unat (INBUFSIZ s) \<le> 2147483647"
    and "e \<noteq> EAGAIN s"
  shows "\<exists>s1. fill_loop s = Some (read_error s1) \<and> errno s1 = e \<and> stderr s1 = stderr s
              \<and> program_name s1 = program_name s \<and> ifname s1 = ifname s
              \<and> strerror s1 = strerror s \<and> fd_in s1 (ifd s) = rest
              \<and> bytes_in s1 = bytes_in s \<and> bytes_out s1 = bytes_out s
              \<and> unat (insize s1) = unat (insize s) + length (concat chunks)"
  using assms
proof (induction chunks arbitrary: s)
  case Nil
  from Nil.prems(1) have ev: "fd_in s (ifd s) = RdFail e # rest" by simp
  have "fill_loop s = Some (read_error (s\<lparr>errno := e, fd_in := (fd_in s)(ifd s := rest)\<rparr>))"
    by (subst fill_loop.simps) (simp add: read_buffer_fail [OF ev Nil.prems(5)])
  then show ?case
    by (intro exI [of _ "s\<lparr>errno := e, fd_in := (fd_in s)(ifd s := rest)\<rparr>"]) simp
next
  case (Cons c cs)
  from Cons.prems(1) have ev: "fd_in s (ifd s) = RdData c # (map RdData cs @ RdFail e # rest)"
    by simp
  from Cons.prems(2) have c: "0 < length c" by simp
  from Cons.prems(3) have le: "insize s \<le> INBUFSIZ s"
    by (simp add: word_le_nat_alt)
  have cnt: "unat (INBUFSIZ s - insize s) = unat (INBUFSIZ s) - unat (insize s)"
    using le by (rule unat_sub)
  have fits: "length c \<le> unat (INBUFSIZ s - insize s)" "unat (INBUFSIZ s - insize s) \<le> 2147483647"
    using Cons.prems(3,4) cnt by simp_all
  let ?s1 = "store (InBuf, unat (insize s)) c
               (s\<lparr>fd_in := (fd_in s)(ifd s := map RdData cs @ RdFail e # rest)\<rparr>)"
  have rb: "read_buffer (ifd s) (InBuf, unat (insize s)) (INBUFSIZ s - insize s) s
              = (int (length c), ?s1)"
    by (rule read_buffer_data [OF ev fits])
  have small: "unat (insize s) + length c < 2 ^ 32"
    using Cons.prems(3,4) by simp
  have ulen: "unat (of_nat (length c) :: unsigned) = length c"
    using small by (simp add: unat_of_nat)
  have uadd: "unat (insize s + of_nat (length c)) = unat (insize s) + length c"
    using small ulen by (simp add: unat_add_lem [THEN iffD1])
  let ?s2 = "?s1\<lparr>insize := insize s + of_nat (length c)\<rparr>"
  have lt: "insize s + of_nat (length c) < INBUFSIZ s"
    using Cons.prems(3) uadd by (simp add: word_less_nat_alt)
  have step: "fill_loop s = fill_loop ?s2"
    using c lt by (subst fill_loop.simps) (simp add: rb)
  have p1: "fd_in ?s2 (ifd ?s2) = map RdData cs @ RdFail e # rest"
    by simp
  have p2: "\<forall>c\<in>set cs. c \<noteq> []" using Cons.prems(2) by simp
  have p3: "unat (insize ?s2) + length (concat cs) < unat (INBUFSIZ ?s2)"
    using Cons.prems(3) uadd by simp
  have p4: "unat (INBUFSIZ ?s2) \<le> 2147483647" using Cons.prems(4) by simp
  have p5: "e \<noteq> EAGAIN ?s2" using Cons.prems(5) by simp
  from Cons.IH [OF p1 p2 p3 p4 p5] obtain s3 where
    "fill_loop ?s2 = Some (read_error s3)" "errno s3 = e" "stderr s3 = stderr ?s2"
    "program_name s3 = program_name ?s2" "ifname s3 = ifname ?s2"
    "strerror s3 = strerror ?s2" "fd_in s3 (ifd ?s2) = rest"
    "bytes_in s3 = bytes_in ?s2" "bytes_out s3 = bytes_out ?s2"
    "unat (insize s3) = unat (insize ?s2) + length (concat cs)"
    by blast
  with step uadd show ?case
    by (intro exI [of _ s3]) simp
qed


text \<open>
  C4, as the code has it.  A failing read in the loop of \<open>fill_inbuf\<close> always
  raises the read error: in any iteration, when \<open>read_buffer\<close> returns -1 the loop
  ends in \<open>read_error\<close>, which leaves through \<open>abort_gzip\<close>; and \<open>fill_inbuf\<close>
  leaves the same way whatever \<open>eof_ok\<close> is.  In particular, on a source that
  delivers some chunks (possibly none, so that zero bytes have been read) and
  then fails with an \<open>errno\<close> other than \<open>EAGAIN\<close>, \<open>fill_inbuf\<close> aborts after
  printing the diagnostic of that \<open>errno\<close>, with \<open>eof_ok\<close> set or not.
\<close>

theorem fill_inbuf_read_failure:
  "(\<forall>t t1. read_buffer (ifd t) (InBuf, unat (insize t)) (INBUFSIZ t - insize t) t = (- 1, t1)
        \<longrightarrow> fill_loop t = Some (read_error t1))
   \<and> (\<forall>x. fill_loop (s\<lparr>insize := 0\<rparr>) = Some (Inl x)
        \<longrightarrow> fill_inbuf eof_ok s = Some (Inl x) \<and> fst x = Abort_gzip)
   \<and> (\<forall>chunks e rest.
         fd_in s (ifd s) = map RdData chunks @ RdFail e # rest
         \<and> (\<forall>c\<in>set chunks. c \<noteq> [])
         \<and> length (concat chunks) < unat (INBUFSIZ s)
         \<and> unat (INBUFSIZ s) \<le> 2147483647
         \<and> e \<noteq> EAGAIN s
        \<longrightarrow> (\<exists>s'. fill_inbuf eof_ok s = Some (Inl (Abort_gzip, s'))
                 \<and> stderr s' = stderr s @ diagnostic (program_name s) (ifname s)
                      (if e \<noteq> 0 then strerror s e else ''unexpected end of file'')
                 \<and> fd_in s' (ifd s) = rest
                 \<and> bytes_in s' = bytes_in s \<and> bytes_out s' = bytes_out s))"
proof (intro conjI allI impI)
  fix t t1
  assume "read_buffer (ifd t) (InBuf, unat (insize t)) (INBUFSIZ t - insize t) t = (- 1, t1)"
  then show "fill_loop t = Some (read_error t1)"
    by (subst fill_loop.simps) simp
next
  fix x
  assume l: "fill_loop (s\<lparr>insize := 0\<rparr>) = Some (Inl x)"
  then show "fill_inbuf eof_ok s = Some (Inl x)"
    by (simp add: fill_inbuf_def)
  from fill_loop_not_failed [OF l] show "fst x = Abort_gzip"
    by (cases x; cases "fst x") auto
next
  fix chunks e rest
  assume h: "fd_in s (ifd s) = map RdData chunks @ RdFail e # rest
         \<and> (\<forall>c\<in>set chunks. c \<noteq> [])
         \<and> length (concat chunks) < unat (INBUFSIZ s)
         \<and> unat (INBUFSIZ s) \<le> 2147483647
         \<and> e \<noteq> EAGAIN s"
  let ?s0 = "s\<lparr>insize := 0\<rparr>"
  from h have p: "fd_in ?s0 (ifd ?s0) = map RdData chunks @ RdFail e # rest"
    "\<forall>c\<in>set chunks. c \<noteq> []"
    "unat (insize ?s0) + length (concat chunks) < unat (INBUFSIZ ?s0)"
    "unat (INBUFSIZ ?s0) \<le> 2147483647" "e \<noteq> EAGAIN ?s0"
    by simp_all
  from fill_loop_data_then_fail [OF p] obtain s1 where
    s1: "fill_loop ?s0 = Some (read_error s1)" "errno s1 = e" "stderr s1 = stderr s"
      "program_name s1 = program_name s" "ifname s1 = ifname s" "strerror s1 = strerror s"
      "fd_in s1 (ifd s) = rest" "bytes_in s1 = bytes_in s" "bytes_out s1 = bytes_out s"
    by auto
  let ?s' = "s1\<lparr>stderr := stderr s1 @ diagnostic (program_name s1) (ifname s1)
               (if errno s1 \<noteq> 0 then strerror s1 (errno s1) else ''unexpected end of file'')\<rparr>"
  have "fill_inbuf eof_ok s = Some (Inl (Abort_gzip, ?s'))"
    using s1(1) by (simp add: fill_inbuf_def read_error_aborts)
  then show "\<exists>s'. fill_inbuf eof_ok s = Some (Inl (Abort_gzip, s'))
                 \<and> stderr s' = stderr s @ diagnostic (program_name s) (ifname s)
                      (if e \<noteq> 0 then strerror s e else ''unexpected end of file'')
                 \<and> fd_in s' (ifd s) = rest
                 \<and> bytes_in s' = bytes_in s \<and> bytes_out s' = bytes_out s"
    using s1 by (intro exI [of _ ?s']) simp
qed

theorem fill_inbuf_read_failure_witness:
  "\<exists>s'. fill_inbuf True read_fails_later = Some (Inl (Abort_gzip, s'))
        \<and> stderr s' = [CHR 0x0A] @ ''gzip: stdin: Input/output error'' @ [CHR 0x0A]
        \<and> bytes_in s' = 0"
proof -
  have h: "fd_in read_fails_later (ifd read_fails_later) = map RdData [bytes_of ''ab''] @ RdFail 5 # []
         \<and> (\<forall>c\<in>set [bytes_of ''ab'']. c \<noteq> [])
         \<and> length (concat [bytes_of ''ab'']) < unat (INBUFSIZ read_fails_later)
         \<and> unat (INBUFSIZ read_fails_later) \<le> 2147483647
         \<and> 5 \<noteq> EAGAIN read_fails_later"
    by (simp add: read_fails_later_def initial_def bytes_of_def)
  note th = fill_inbuf_read_failure [of read_fails_later True, THEN conjunct2, THEN conjunct2,
      rule_format, OF h]
  then obtain s' where
    s': "fill_inbuf True read_fails_later = Some (Inl (Abort_gzip, s'))"
    "stderr s' = stderr read_fails_later
        @ diagnostic (program_name read_fails_later) (ifname read_fails_later)
            (if (5::int) \<noteq> 0 then strerror read_fails_later 5 else ''unexpected end of file'')"
    "bytes_in s' = bytes_in read_fails_later"
    by (elim exE conjE)
  have "stderr read_fails_later
        @ diagnostic (program_name read_fails_later) (ifname read_fails_later)
            (if (5::int) \<noteq> 0 then strerror read_fails_later 5 else ''unexpected end of file'')
        = [CHR 0x0A] @ ''gzip: stdin: Input/output error'' @ [CHR 0x0A]"
    "bytes_in read_fails_later = 0"
    by (simp_all add: read_fails_later_def initial_def diagnostic_def)
  with s' show ?thesis
    by (intro exI [of _ s']) simp
qed

text \<open>
  C4, as the claim has it: with zero bytes read and \<open>eof_ok\<close> set, a failing
  read makes \<open>fill_inbuf\<close> return \<open>EOF\<close>.  It aborts instead.
\<close>

theorem fill_inbuf_read_failure_counterexample:
  "outcome (fill_inbuf True read_fails_at_once) = Some (Inl Abort_gzip)
   \<and> outcome (fill_inbuf True read_fails_at_once) \<noteq> Some (Inr EOF)"
proof -
  have "fill_loop (read_fails_at_once\<lparr>insize := 0\<rparr>)
          = Some (read_error (snd (read_buffer 0 (InBuf, 0) 4 (read_fails_at_once\<lparr>insize := 0\<rparr>))))"
    by (subst fill_loop.simps)
       (simp add: read_fails_at_once_def initial_def read_buffer_unfold sys_read_def)
  then have "outcome (fill_inbuf True read_fails_at_once) = Some (Inl Abort_gzip)"
    by (simp add: fill_inbuf_def read_error_aborts outcome_def)
  then show ?thesis
    by simp
qed


lemma length_overlay [simp]: "length (overlay off bs m) = length m"
  by (auto simp: overlay_def)

lemma take_overlay:
  assumes "off + length bs \<le> length m"
  shows "take (off + length bs) (overlay off bs m) = take off m @ bs"
  using assms by (simp add: overlay_def)

lemma inbuf_store [simp]:
  "inbuf (store (InBuf, off) bs s) = overlay off bs (inbuf s)"
  by simp

lemma read_buffer_data_partial:
  assumes "fd_in s fd = RdData bs # rest" and "unat cnt < length bs" and "unat cnt \<le> 2147483647"
  shows "read_buffer fd buf cnt s =
           (int (unat cnt),
            store buf (take (unat cnt) bs)
              (s\<lparr>fd_in := (fd_in s)(fd := RdData (drop (unat cnt) bs) # rest)\<rparr>))"
  using assms by (simp add: read_buffer_unfold sys_read_def min_def)

lemma fill_loop_data:
  assumes "fd_in s (ifd s) = map RdData chunks"
    and "\<forall>c\<in>set chunks. c \<noteq> []"
    and "unat (insize s) < unat (INBUFSIZ s)"
    and "unat (INBUFSIZ s) \<le> 2147483647"
    and "unat (INBUFSIZ s) \<le> length (inbuf s)"
  shows "\<exists>s1 chunks'.
           fill_loop s = Some (Inr ((), s1))
         \<and> unat (insize s1)
             = unat (insize s) + min (length (concat chunks)) (unat (INBUFSIZ s) - unat (insize s))
         \<and> take (unat (insize s1)) (inbuf s1)
             = take (unat (insize s)) (inbuf s)
               @ take (unat (INBUFSIZ s) - unat (insize s)) (concat chunks)
         \<and> fd_in s1 (ifd s) = map RdData chunks'
         \<and> concat chunks' = drop (unat (INBUFSIZ s) - unat (insize s)) (concat chunks)
         \<and> s1 = s\<lparr>insize := insize s1, inbuf := inbuf s1, fd_in := fd_in s1\<rparr>"
  using assms
proof (induction chunks arbitrary: s)
  case Nil
  then have "fill_loop s = Some (Inr ((), s))"
    by (subst fill_loop.simps) (simp add: read_buffer_eof)
  with Nil.prems(1) show ?case
    by (intro exI [of _ s] exI [of _ "[]"]) simp
next
  case (Cons c cs)
  define space where "space = unat (INBUFSIZ s) - unat (insize s)"
  from Cons.prems(1) have ev: "fd_in s (ifd s) = RdData c # map RdData cs"
    by simp
  from Cons.prems(2) have c: "0 < length c" by simp
  have le: "insize s \<le> INBUFSIZ s"
    using Cons.prems(3) by (simp add: word_le_nat_alt)
  have cnt: "unat (INBUFSIZ s - insize s) = space"
    unfolding space_def using le by (rule unat_sub)
  have space: "0 < space" "space \<le> 2147483647" "unat (insize s) + space = unat (INBUFSIZ s)"
    using Cons.prems(3,4) by (simp_all add: space_def)
  show ?case
  proof (cases "length c \<le> space")
    case True
    let ?s1 = "store (InBuf, unat (insize s)) c (s\<lparr>fd_in := (fd_in s)(ifd s := map RdData cs)\<rparr>)"
    have rb: "read_buffer (ifd s) (InBuf, unat (insize s)) (INBUFSIZ s - insize s) s
                = (int (length c), ?s1)"
      using True space(2) by (intro read_buffer_data [OF ev]) (simp_all add: cnt)
    have small: "unat (insize s) + length c < 2 ^ 32"
      using True space Cons.prems(4) by simp
    have ulen: "unat (of_nat (length c) :: unsigned) = length c"
      using small by (simp add: unat_of_nat)
    have uadd: "unat (insize s + of_nat (length c)) = unat (insize s) + length c"
      using small ulen by (simp add: unat_add_lem [THEN iffD1])
    let ?s2 = "?s1\<lparr>insize := insize s + of_nat (length c)\<rparr>"
    have "unat (insize s) + length c \<le> length (inbuf s)"
      using True space(3) Cons.prems(5) by simp
    from take_overlay [OF this]
    have buf2: "take (unat (insize s) + length c) (inbuf ?s2) = take (unat (insize s)) (inbuf s) @ c"
      by simp
    show ?thesis
    proof (cases "insize s + of_nat (length c) < INBUFSIZ s")
      case again: True
      then have lt: "unat (insize s) + length c < unat (INBUFSIZ s)"
        using uadd by (simp add: word_less_nat_alt)
      have step: "fill_loop s = fill_loop ?s2"
        using c again by (subst fill_loop.simps) (simp add: rb)
      have p1: "fd_in ?s2 (ifd ?s2) = map RdData cs" by simp
      have p2: "\<forall>c\<in>set cs. c \<noteq> []" using Cons.prems(2) by simp
      have p3: "unat (insize ?s2) < unat (INBUFSIZ ?s2)" using lt uadd by simp
      have p4: "unat (INBUFSIZ ?s2) \<le> 2147483647" using Cons.prems(4) by simp
      have p5: "unat (INBUFSIZ ?s2) \<le> length (inbuf ?s2)" using Cons.prems(5) by simp
      from Cons.IH [OF p1 p2 p3 p4 p5] obtain s3 chunks' where
        s3: "fill_loop ?s2 = Some (Inr ((), s3))"
          "unat (insize s3) = unat (insize ?s2)
             + min (length (concat cs)) (unat (INBUFSIZ ?s2) - unat (insize ?s2))"
          "take (unat (insize s3)) (inbuf s3)
             = take (unat (insize ?s2)) (inbuf ?s2)
               @ take (unat (INBUFSIZ ?s2) - unat (insize ?s2)) (concat cs)"
          "fd_in s3 (ifd ?s2) = map RdData chunks'"
          "concat chunks' = drop (unat (INBUFSIZ ?s2) - unat (insize ?s2)) (concat cs)"
          "s3 = ?s2\<lparr>insize := insize s3, inbuf := inbuf s3, fd_in := fd_in s3\<rparr>"
        by blast
      have rest: "unat (INBUFSIZ ?s2) - unat (insize ?s2) = space - length c"
        using uadd space(3) by simp
      have m: "min (length (concat (c # cs))) space
                 = length c + min (length (concat cs)) (space - length c)"
        unfolding concat.simps length_append using True by arith
      have a: "unat (insize s3)
                 = unat (insize s) + min (length (concat (c # cs))) space"
        unfolding m using s3(2) uadd unfolding rest by simp
      have b: "take (unat (insize s3)) (inbuf s3)
                 = take (unat (insize s)) (inbuf s) @ take space (concat (c # cs))"
        using s3(3) buf2 True uadd unfolding rest by simp
      have d: "concat chunks' = drop space (concat (c # cs))"
        using s3(5) True unfolding rest by simp
      have e: "s3 = s\<lparr>insize := insize s3, inbuf := inbuf s3, fd_in := fd_in s3\<rparr>"
        by (subst s3(6)) simp
      have r: "fill_loop s = Some (Inr ((), s3))"
        using step s3(1) by simp
      have f: "fd_in s3 (ifd s) = map RdData chunks'"
        using s3(4) by simp
      show ?thesis
        using r a b f d e unfolding space_def
        by (intro exI conjI) assumption+
    next
      case full: False
      then have "unat (insize s) + length c \<ge> unat (INBUFSIZ s)"
        using uadd by (simp add: word_less_nat_alt)
      with True space(3) have eq: "length c = space" by simp
      have res: "fill_loop s = Some (Inr ((), ?s2))"
        using c full by (subst fill_loop.simps) (simp add: rb)
      have a: "unat (insize ?s2) = unat (insize s) + min (length (concat (c # cs))) space"
        using uadd eq by simp
      have b: "take (unat (insize ?s2)) (inbuf ?s2)
                 = take (unat (insize s)) (inbuf s) @ take space (concat (c # cs))"
        using buf2 uadd eq by simp
      have d: "concat cs = drop space (concat (c # cs))"
        using eq by simp
      have e: "?s2 = s\<lparr>insize := insize ?s2, inbuf := inbuf ?s2, fd_in := fd_in ?s2\<rparr>"
        by simp
      have f: "fd_in ?s2 (ifd s) = map RdData cs"
        by simp
      show ?thesis
        using res a b f d e unfolding space_def
        by (intro exI conjI) assumption+
    qed
  next
    case False
    then have long: "space < length c" by simp
    let ?s1 = "store (InBuf, unat (insize s)) (take space c)
                 (s\<lparr>fd_in := (fd_in s)(ifd s := RdData (drop space c) # map RdData cs)\<rparr>)"
    have rb: "read_buffer (ifd s) (InBuf, unat (insize s)) (INBUFSIZ s - insize s) s
                = (int space, ?s1)"
      using read_buffer_data_partial [OF ev, of "INBUFSIZ s - insize s" "(InBuf, unat (insize s))"]
        long space(2)
      by (simp add: cnt)
    have small: "unat (insize s) + space < 2 ^ 32"
      using space Cons.prems(4) by simp
    have ulen: "unat (of_nat space :: unsigned) = space"
      using small by (simp add: unat_of_nat)
    have uadd: "unat (insize s + of_nat space) = unat (insize s) + space"
      using small ulen by (simp add: unat_add_lem [THEN iffD1])
    let ?s2 = "?s1\<lparr>insize := insize s + of_nat space\<rparr>"
    have full: "\<not> insize s + of_nat space < INBUFSIZ s"
      using uadd space(3) by (simp add: word_less_nat_alt)
    have res: "fill_loop s = Some (Inr ((), ?s2))"
      using space(1) full by (subst fill_loop.simps) (simp add: rb)
    have a: "unat (insize ?s2) = unat (insize s) + min (length (concat (c # cs))) space"
      using uadd long by simp
    have "unat (insize s) + length (take space c) \<le> length (inbuf s)"
      using long space(3) Cons.prems(5) by simp
    from take_overlay [OF this]
    have "take (unat (insize s) + length (take space c)) (inbuf ?s2)
            = take (unat (insize s)) (inbuf s) @ take space c"
      by simp
    then have b: "take (unat (insize ?s2)) (inbuf ?s2)
                 = take (unat (insize s)) (inbuf s) @ take space (concat (c # cs))"
      using uadd long by (simp add: min_def)
    have d: "concat (drop space c # cs) = drop space (concat (c # cs))"
      using long by simp
    have e: "?s2 = s\<lparr>insize := insize ?s2, inbuf := inbuf ?s2, fd_in := fd_in ?s2\<rparr>"
      by simp
    have f: "fd_in ?s2 (ifd s) = map RdData (drop space c # cs)"
      by simp
    show ?thesis
      using res a b f d e unfolding space_def
      by (intro exI conjI) assumption+
  qed
qed


lemma flush_window_returns:
  assumes "test s \<or> outcnt s = 0 \<or> (\<forall>i\<ge>wr_calls s. \<exists>k. 0 < k \<and> wr_beh s i = WrTake k)"
  shows "\<exists>s2. flush_window s = Some (Inr ((), s2))
              \<and> outcnt s2 = 0
              \<and> fd_out s2 = (if test s \<or> outcnt s = 0 then fd_out s
                              else (fd_out s)(ofd s := fd_out s (ofd s)
                                     @ load (Window, 0) (unat (outcnt s)) s))
              \<and> stderr s2 = stderr s \<and> program_name s2 = program_name s
              \<and> ifname s2 = ifname s \<and> insize s2 = insize s \<and> bytes_in s2 = bytes_in s"
proof (cases "outcnt s = 0")
  case True
  then show ?thesis by (simp add: flush_window_def)
next
  case False
  show ?thesis
  proof (cases "test s")
    case True
    with False flush_window_test [OF True] show ?thesis by simp
  next
    case nt: False
    with False assms have "\<forall>i\<ge>wr_calls s. \<exists>k. 0 < k \<and> wr_beh s i = WrTake k" by simp
    from flush_window_delivers [OF nt False this] obtain c where
      "flush_window s =
         Some (Inr ((), s\<lparr>crc := crc32_update (crc s) (load (Window, 0) (unat (outcnt s)) s),
                          bytes_out := bytes_out s + ucast (outcnt s),
                          wr_calls := c,
                          fd_out := (fd_out s)(ofd s := fd_out s (ofd s)
                                       @ load (Window, 0) (unat (outcnt s)) s),
                          outcnt := 0\<rparr>))"
      by blast
    with nt False show ?thesis by simp
  qed
qed

lemma fill_inbuf_after_loop:
  assumes "fill_loop (s\<lparr>insize := 0\<rparr>) = Some (Inr ((), s1))"
  shows "fill_inbuf eof_ok s =
           (if insize s1 = 0
            then (if eof_ok then Some (Inr (EOF, s1))
                  else bind_res (flush_window s1)
                         (\<lambda>_ s2. Some (Inl (Abort_gzip,
                            s2\<lparr>errno := 0,
                               stderr := stderr s2 @ diagnostic (program_name s2) (ifname s2)
                                           ''unexpected end of file''\<rparr>))))
            else Some (Inr (uint (inbuf s1 ! 0),
                            s1\<lparr>bytes_in := bytes_in s1 + ucast (insize s1), inptr := 1\<rparr>)))"
  using assms by (simp add: fill_inbuf_def read_error_def)

lemma fill_inbuf_unexpected_eof_exits:
  assumes "fill_loop (s\<lparr>insize := 0\<rparr>) = Some (Inr ((), s1))" and "insize s1 = 0"
  shows "fill_inbuf False s \<noteq> Some (Inr (v, s'))"
  using assms
  by (auto simp: fill_inbuf_after_loop bind_res_def split: option.splits sum.splits)

lemma fill_inbuf_exhausted:
  assumes "fd_in s (ifd s) = []"
  shows "fill_inbuf True s = Some (Inr (EOF, s\<lparr>insize := 0\<rparr>))"
    and "test s \<or> outcnt s = 0 \<or> (\<forall>i\<ge>wr_calls s. \<exists>k. 0 < k \<and> wr_beh s i = WrTake k) \<Longrightarrow>
         \<exists>s'. fill_inbuf False s = Some (Inl (Abort_gzip, s'))
            \<and> stderr s' = stderr s @ diagnostic (program_name s) (ifname s) ''unexpected end of file''
            \<and> outcnt s' = 0 \<and> insize s' = 0 \<and> bytes_in s' = bytes_in s
            \<and> fd_out s' = (if test s \<or> outcnt s = 0 then fd_out s
                            else (fd_out s)(ofd s := fd_out s (ofd s)
                                   @ load (Window, 0) (unat (outcnt s)) s))"
proof -
  let ?s0 = "s\<lparr>insize := 0\<rparr>"
  have l: "fill_loop ?s0 = Some (Inr ((), ?s0))"
    using assms by (subst fill_loop.simps) (simp add: read_buffer_eof)
  show "fill_inbuf True s = Some (Inr (EOF, ?s0))"
    by (simp add: fill_inbuf_after_loop [OF l])
  assume "test s \<or> outcnt s = 0 \<or> (\<forall>i\<ge>wr_calls s. \<exists>k. 0 < k \<and> wr_beh s i = WrTake k)"
  then have "test ?s0 \<or> outcnt ?s0 = 0
             \<or> (\<forall>i\<ge>wr_calls ?s0. \<exists>k. 0 < k \<and> wr_beh ?s0 i = WrTake k)"
    by simp
  from flush_window_returns [OF this] obtain s2 where
    s2: "flush_window ?s0 = Some (Inr ((), s2))" "outcnt s2 = 0"
      "fd_out s2 = (if test ?s0 \<or> outcnt ?s0 = 0 then fd_out ?s0
                              else (fd_out ?s0)(ofd ?s0 := fd_out ?s0 (ofd ?s0)
                                     @ load (Window, 0) (unat (outcnt ?s0)) ?s0))"
      "stderr s2 = stderr ?s0" "program_name s2 = program_name ?s0"
      "ifname s2 = ifname ?s0" "insize s2 = insize ?s0" "bytes_in s2 = bytes_in ?s0"
    by blast
  let ?s' = "s2\<lparr>errno := 0,
                stderr := stderr s2 @ diagnostic (program_name s2) (ifname s2)
                            ''unexpected end of file''\<rparr>"
  have "fill_inbuf False s = Some (Inl (Abort_gzip, ?s'))"
    by (simp add: fill_inbuf_after_loop [OF l] s2(1))
  moreover have "load (Window, 0) n ?s0 = load (Window, 0) n s" for n
    by (simp add: load_def)
  ultimately show "\<exists>s'. fill_inbuf False s = Some (Inl (Abort_gzip, s'))
            \<and> stderr s' = stderr s @ diagnostic (program_name s) (ifname s) ''unexpected end of file''
            \<and> outcnt s' = 0 \<and> insize s' = 0 \<and> bytes_in s' = bytes_in s
            \<and> fd_out s' = (if test s \<or> outcnt s = 0 then fd_out s
                            else (fd_out s)(ofd s := fd_out s (ofd s)
                                   @ load (Window, 0) (unat (outcnt s)) s))"
    using s2 by (intro exI [of _ ?s']) simp
qed

lemma fill_inbuf_data:
  assumes "fd_in s (ifd s) = map RdData chunks"
    and "\<forall>c\<in>set chunks. c \<noteq> []" and "chunks \<noteq> []"
    and "0 < unat (INBUFSIZ s)"
    and "unat (INBUFSIZ s) \<le> 2147483647"
    and "unat (INBUFSIZ s) \<le> length (inbuf s)"
  shows "\<exists>s'. fill_inbuf eof_ok s = Some (Inr (uint (concat chunks ! 0), s'))
             \<and> unat (insize s') = min (length (concat chunks)) (unat (INBUFSIZ s))
             \<and> inptr s' = 1
             \<and> bytes_in s' = bytes_in s + ucast (insize s')
             \<and> take (unat (insize s')) (inbuf s') = take (unat (INBUFSIZ s)) (concat chunks)
             \<and> bytes_out s' = bytes_out s \<and> crc s' = crc s \<and> outcnt s' = outcnt s"
proof -
  let ?s0 = "s\<lparr>insize := 0\<rparr>"
  have p: "fd_in ?s0 (ifd ?s0) = map RdData chunks" "\<forall>c\<in>set chunks. c \<noteq> []"
    "unat (insize ?s0) < unat (INBUFSIZ ?s0)" "unat (INBUFSIZ ?s0) \<le> 2147483647"
    "unat (INBUFSIZ ?s0) \<le> length (inbuf ?s0)"
    using assms by simp_all
  from fill_loop_data [OF p] obtain s1 chunks' where
    s1: "fill_loop ?s0 = Some (Inr ((), s1))"
      "unat (insize s1) = min (length (concat chunks)) (unat (INBUFSIZ s))"
      "take (unat (insize s1)) (inbuf s1) = take (unat (INBUFSIZ s)) (concat chunks)"
      "s1 = ?s0\<lparr>insize := insize s1, inbuf := inbuf s1, fd_in := fd_in s1\<rparr>"
      "fd_in s1 (ifd ?s0) = map RdData chunks'"
    by auto
  from assms(2,3) have ne: "concat chunks \<noteq> []"
    by (cases chunks) auto
  then have pos: "0 < unat (insize s1)"
    using s1(2) assms(4) by (cases "concat chunks") auto
  then have nz: "insize s1 \<noteq> 0"
    by (auto simp: unat_gt_0)
  have "inbuf s1 ! 0 = take (unat (insize s1)) (inbuf s1) ! 0"
    using pos by simp
  also have "\<dots> = concat chunks ! 0"
    unfolding s1(3) using assms(4) by simp
  finally have first: "inbuf s1 ! 0 = concat chunks ! 0" .
  let ?s' = "s1\<lparr>bytes_in := bytes_in s1 + ucast (insize s1), inptr := 1\<rparr>"
  have res: "fill_inbuf eof_ok s = Some (Inr (uint (concat chunks ! 0), ?s'))"
    using nz first by (simp add: fill_inbuf_after_loop [OF s1(1)])
  have fr: "bytes_in s1 = bytes_in s" "bytes_out s1 = bytes_out s" "crc s1 = crc s"
    "outcnt s1 = outcnt s"
    by (subst s1(4), simp)+
  from res s1(2,3) fr show ?thesis
    by (intro exI [of _ ?s']) simp
qed


text \<open>
  C6. What \<open>fill_inbuf\<close> does after its read loop, when the loop has ended
  without a read error in a state \<open>s1\<close>.  With nothing buffered and \<open>eof_ok\<close> set
  it returns \<open>EOF\<close> and does not raise.  With nothing buffered and \<open>eof_ok\<close> clear
  it calls \<open>flush_window\<close> and then raises the read error with \<open>errno\<close> 0 (the
  message is "unexpected end of file"), and never returns normally.  With
  something buffered it adds \<open>insize\<close> to \<open>bytes_in\<close>, sets \<open>inptr\<close> to 1 and
  returns the byte at offset 0 of \<open>inbuf\<close>.  On an exhausted source this gives
  \<open>EOF\<close> with \<open>eof_ok\<close>, and without it the abort after the pending window has
  been written; on a source that delivers bytes it gives the first byte of the
  stream, with \<open>min\<close> of the stream's length and \<open>INBUFSIZ\<close> bytes buffered and
  counted.
\<close>

theorem fill_inbuf_postcondition:
  "(\<forall>s1. fill_loop (s\<lparr>insize := 0\<rparr>) = Some (Inr ((), s1)) \<longrightarrow>
       (insize s1 = 0 \<and> eof_ok \<longrightarrow> fill_inbuf eof_ok s = Some (Inr (EOF, s1)))
     \<and> (insize s1 = 0 \<and> \<not> eof_ok \<longrightarrow>
           fill_inbuf eof_ok s =
             bind_res (flush_window s1)
               (\<lambda>_ s2. Some (Inl (Abort_gzip,
                  s2\<lparr>errno := 0,
                     stderr := stderr s2 @ diagnostic (program_name s2) (ifname s2)
                                 ''unexpected end of file''\<rparr>)))
         \<and> (\<forall>v s'. fill_inbuf eof_ok s \<noteq> Some (Inr (v, s'))))
     \<and> (insize s1 \<noteq> 0 \<longrightarrow>
           fill_inbuf eof_ok s =
             Some (Inr (uint (inbuf s1 ! 0),
                        s1\<lparr>bytes_in := bytes_in s1 + ucast (insize s1), inptr := 1\<rparr>))))
   \<and> (fd_in s (ifd s) = [] \<longrightarrow> fill_inbuf True s = Some (Inr (EOF, s\<lparr>insize := 0\<rparr>)))
   \<and> (fd_in s (ifd s) = []
        \<and> (test s \<or> outcnt s = 0 \<or> (\<forall>i\<ge>wr_calls s. \<exists>k. 0 < k \<and> wr_beh s i = WrTake k)) \<longrightarrow>
        (\<exists>s'. fill_inbuf False s = Some (Inl (Abort_gzip, s'))
            \<and> stderr s' = stderr s @ diagnostic (program_name s) (ifname s) ''unexpected end of file''
            \<and> outcnt s' = 0 \<and> insize s' = 0 \<and> bytes_in s' = bytes_in s
            \<and> fd_out s' = (if test s \<or> outcnt s = 0 then fd_out s
                            else (fd_out s)(ofd s := fd_out s (ofd s)
                                   @ load (Window, 0) (unat (outcnt s)) s))))
   \<and> (\<forall>chunks.
         fd_in s (ifd s) = map RdData chunks \<and> (\<forall>c\<in>set chunks. c \<noteq> []) \<and> chunks \<noteq> []
         \<and> 0 < unat (INBUFSIZ s) \<and> unat (INBUFSIZ s) \<le> 2147483647
         \<and> unat (INBUFSIZ s) \<le> length (inbuf s) \<longrightarrow>
        (\<exists>s'. fill_inbuf eof_ok s = Some (Inr (uint (concat chunks ! 0), s'))
             \<and> unat (insize s') = min (length (concat chunks)) (unat (INBUFSIZ s))
             \<and> inptr s' = 1
             \<and> bytes_in s' = bytes_in s + ucast (insize s')
             \<and> take (unat (insize s')) (inbuf s') = take (unat (INBUFSIZ s)) (concat chunks)
             \<and> bytes_out s' = bytes_out s \<and> crc s' = crc s \<and> outcnt s' = outcnt s))"
proof -
  have 1: "(insize s1 = 0 \<and> eof_ok \<longrightarrow> fill_inbuf eof_ok s = Some (Inr (EOF, s1)))
     \<and> (insize s1 = 0 \<and> \<not> eof_ok \<longrightarrow>
           fill_inbuf eof_ok s =
             bind_res (flush_window s1)
               (\<lambda>_ s2. Some (Inl (Abort_gzip,
                  s2\<lparr>errno := 0,
                     stderr := stderr s2 @ diagnostic (program_name s2) (ifname s2)
                                 ''unexpected end of file''\<rparr>)))
         \<and> (\<forall>v s'. fill_inbuf eof_ok s \<noteq> Some (Inr (v, s'))))
     \<and> (insize s1 \<noteq> 0 \<longrightarrow>
           fill_inbuf eof_ok s =
             Some (Inr (uint (inbuf s1 ! 0),
                        s1\<lparr>bytes_in := bytes_in s1 + ucast (insize s1), inptr := 1\<rparr>)))"
    if l: "fill_loop (s\<lparr>insize := 0\<rparr>) = Some (Inr ((), s1))" for s1
    using fill_inbuf_unexpected_eof_exits [OF l]
    by (auto simp add: fill_inbuf_after_loop [OF l])
  note 2 = fill_inbuf_exhausted(1) [of s]
  note 3 = fill_inbuf_exhausted(2) [of s]
  note 4 = fill_inbuf_data [of s _ eof_ok]
  show ?thesis
    apply (intro conjI allI impI)
    subgoal for s1 using 1 [of s1] by simp
    subgoal for s1 using 1 [of s1] by simp
    subgoal for s1 v s' using fill_inbuf_unexpected_eof_exits [of s s1 v s'] by simp
    subgoal for s1 using 1 [of s1] by simp
    subgoal by (rule 2)
    subgoal by (rule 3) simp_all
    subgoal for chunks by (rule 4) simp_all
    done
qed

theorem fill_inbuf_postcondition_witness:
  "fill_inbuf True initial = Some (Inr (EOF, initial\<lparr>insize := 0\<rparr>))
   \<and> (\<exists>s'. fill_inbuf False initial = Some (Inl (Abort_gzip, s'))
          \<and> stderr s' = [CHR 0x0A] @ ''gzip: stdin: unexpected end of file'' @ [CHR 0x0A])
   \<and> (\<exists>s'. fill_inbuf False refill_data = Some (Inr (98, s'))
          \<and> unat (insize s') = 4 \<and> inptr s' = 1 \<and> bytes_in s' = ucast (insize s')
          \<and> take (unat (insize s')) (inbuf s') = bytes_of ''bana'')"
proof -
  have e: "fd_in initial (ifd initial) = []"
    by (simp add: initial_def)
  have e2: "fd_in initial (ifd initial) = []
        \<and> (test initial \<or> outcnt initial = 0
            \<or> (\<forall>i\<ge>wr_calls initial. \<exists>k. 0 < k \<and> wr_beh initial i = WrTake k))"
    by (simp add: initial_def)
  have d: "fd_in refill_data (ifd refill_data) = map RdData [bytes_of ''ba'', bytes_of ''nana'']
         \<and> (\<forall>c\<in>set [bytes_of ''ba'', bytes_of ''nana'']. c \<noteq> [])
         \<and> [bytes_of ''ba'', bytes_of ''nana''] \<noteq> []
         \<and> 0 < unat (INBUFSIZ refill_data) \<and> unat (INBUFSIZ refill_data) \<le> 2147483647
         \<and> unat (INBUFSIZ refill_data) \<le> length (inbuf refill_data)"
    by (simp add: refill_data_def initial_def bytes_of_def)
  note a = fill_inbuf_postcondition [of initial True, THEN conjunct2, THEN conjunct1,
      rule_format, OF e]
  note b = fill_inbuf_postcondition [of initial False, THEN conjunct2, THEN conjunct2,
      THEN conjunct1, rule_format, OF e2]
  note c = fill_inbuf_postcondition [of refill_data False, THEN conjunct2, THEN conjunct2,
      THEN conjunct2, rule_format, OF d]
  from b obtain s1 where
    s1: "fill_inbuf False initial = Some (Inl (Abort_gzip, s1))"
      "stderr s1 = stderr initial
         @ diagnostic (program_name initial) (ifname initial) ''unexpected end of file''"
    by (elim exE conjE)
  from c obtain s2 where
    s2: "fill_inbuf False refill_data
           = Some (Inr (uint (concat [bytes_of ''ba'', bytes_of ''nana''] ! 0), s2))"
      "unat (insize s2)
         = min (length (concat [bytes_of ''ba'', bytes_of ''nana''])) (unat (INBUFSIZ refill_data))"
      "inptr s2 = 1" "bytes_in s2 = bytes_in refill_data + ucast (insize s2)"
      "take (unat (insize s2)) (inbuf s2)
         = take (unat (INBUFSIZ refill_data)) (concat [bytes_of ''ba'', bytes_of ''nana''])"
    by (elim exE conjE)
  have v1: "stderr initial
         @ diagnostic (program_name initial) (ifname initial) ''unexpected end of file''
       = [CHR 0x0A] @ ''gzip: stdin: unexpected end of file'' @ [CHR 0x0A]"
    by (simp add: initial_def diagnostic_def)
  have v2: "uint (concat [bytes_of ''ba'', bytes_of ''nana''] ! 0) = 98"
    "min (length (concat [bytes_of ''ba'', bytes_of ''nana''])) (unat (INBUFSIZ refill_data)) = 4"
    "bytes_in refill_data = 0"
    "take (unat (INBUFSIZ refill_data)) (concat [bytes_of ''ba'', bytes_of ''nana''])
       = bytes_of ''bana''"
    by (simp_all add: refill_data_def initial_def bytes_of_def)
  have p2: "\<exists>s'. fill_inbuf False initial = Some (Inl (Abort_gzip, s'))
          \<and> stderr s' = [CHR 0x0A] @ ''gzip: stdin: unexpected end of file'' @ [CHR 0x0A]"
    using s1 v1 by (intro exI [of _ s1]) simp
  have p3: "\<exists>s'. fill_inbuf False refill_data = Some (Inr (98, s'))
          \<and> unat (insize s') = 4 \<and> inptr s' = 1 \<and> bytes_in s' = ucast (insize s')
          \<and> take (unat (insize s')) (inbuf s') = bytes_of ''bana''"
    using s2 v2 by (intro exI [of _ s2]) simp
  from a p2 p3 show ?thesis by (intro conjI)
qed


subsection \<open>Copying input to output\<close>

lemma write_buf_returns:
  assumes "test s \<or> (\<forall>i\<ge>wr_calls s. \<exists>k. 0 < k \<and> wr_beh s i = WrTake k)"
  shows "\<exists>c. write_buf fd buf cnt s =
               Some (Inr ((), s\<lparr>bytes_out := bytes_out s + ucast cnt, wr_calls := c,
                     fd_out := (if test s then fd_out s
                                else (fd_out s)(fd := fd_out s fd @ load buf (unat cnt) s))\<rparr>))
             \<and> wr_calls s \<le> c"
proof (cases "test s")
  case True
  then have "write_buf fd buf cnt s =
               Some (Inr ((), s\<lparr>bytes_out := bytes_out s + ucast cnt, wr_calls := wr_calls s,
                     fd_out := fd_out s\<rparr>))"
    by (simp add: write_buf_def Let_def)
  with True show ?thesis by (intro exI [of _ "wr_calls s"]) simp
next
  case False
  let ?s1 = "s\<lparr>bytes_out := bytes_out s + ucast cnt\<rparr>"
  from False assms have "\<forall>i\<ge>wr_calls ?s1. \<exists>k. 0 < k \<and> wr_beh ?s1 i = WrTake k"
    by simp
  from write_loop_delivers [OF this, of fd buf cnt] obtain c where
    "write_loop fd buf cnt ?s1 =
       Some (Inr ((), ?s1\<lparr>wr_calls := c,
               fd_out := (fd_out ?s1)(fd := fd_out ?s1 fd @ load buf (unat cnt) ?s1)\<rparr>))"
    "wr_calls ?s1 < c"
    by blast
  with False show ?thesis
    by (intro exI [of _ c]) (simp add: write_buf_def Let_def)
qed

lemma ucast_of_nat_unsigned:
  assumes "n \<le> 2147483647"
  shows "(ucast (of_nat n :: unsigned) :: off_t) = of_nat n"
    and "unat (of_nat n :: unsigned) = n"
proof -
  show u: "unat (of_nat n :: unsigned) = n"
    using assms by (simp add: unat_of_nat)
  have "(ucast (of_nat n :: unsigned) :: off_t) = of_nat (unat (of_nat n :: unsigned))"
    by simp
  then show "(ucast (of_nat n :: unsigned) :: off_t) = of_nat n"
    unfolding u .
qed

lemma load_inbuf_store:
  assumes "length bs \<le> length (inbuf s)"
  shows "load (InBuf, 0) (length bs) (store (InBuf, 0) bs s) = bs"
  using assms take_overlay [of 0 bs "inbuf s"] by (simp add: load_def)


lemma read_buffer_chunk:
  assumes "fd_in s fd = RdData c # map RdData cs" and "c \<noteq> []" and "\<forall>x\<in>set cs. x \<noteq> []"
    and "0 < unat cnt" and "unat cnt \<le> 2147483647"
  shows "\<exists>d chunks'.
           read_buffer fd buf cnt s
             = (int (length d), store buf d (s\<lparr>fd_in := (fd_in s)(fd := map RdData chunks')\<rparr>))
         \<and> d \<noteq> [] \<and> length d \<le> unat cnt
         \<and> d @ concat chunks' = concat (c # cs)
         \<and> (\<forall>x\<in>set chunks'. x \<noteq> [])"
proof (cases "length c \<le> unat cnt")
  case True
  from read_buffer_data [OF assms(1) True assms(5), of buf]
  have "read_buffer fd buf cnt s
          = (int (length c), store buf c (s\<lparr>fd_in := (fd_in s)(fd := map RdData cs)\<rparr>))" .
  with True assms(2,3) show ?thesis
    by (intro exI [of _ c] exI [of _ cs]) simp
next
  case False
  then have long: "unat cnt < length c" by simp
  from read_buffer_data_partial [OF assms(1) long assms(5), of buf]
  have "read_buffer fd buf cnt s
          = (int (length (take (unat cnt) c)),
             store buf (take (unat cnt) c)
               (s\<lparr>fd_in := (fd_in s)(fd := map RdData (drop (unat cnt) c # cs))\<rparr>))"
    using long by (simp add: min_def)
  with long assms(3,4) show ?thesis
    by (intro exI [of _ "take (unat cnt) c"] exI [of _ "drop (unat cnt) c # cs"]) auto
qed

lemma copy_loop_data:
  assumes "fd_in s in_fd = map RdData chunks" and "\<forall>c\<in>set chunks. c \<noteq> []"
    and "test s \<or> (\<forall>i\<ge>wr_calls s. \<exists>k. 0 < k \<and> wr_beh s i = WrTake k)"
    and "0 < unat (INBUFSIZ s)" and "unat (INBUFSIZ s) \<le> 2147483647"
    and "unat (INBUFSIZ s) \<le> length (inbuf s)"
    and "inptr s < insize s"
  shows "\<exists>s'. copy_loop in_fd out_fd s = Some (Inr ((), s'))
             \<and> insize s' = 0 \<and> inptr s' = 0 \<and> fd_in s' in_fd = []
             \<and> bytes_in s' = bytes_in s + of_nat (length (concat chunks))
             \<and> bytes_out s' = bytes_out s + ucast (insize s - inptr s)
                                + of_nat (length (concat chunks))
             \<and> fd_out s' = (if test s then fd_out s
                             else (fd_out s)(out_fd := fd_out s out_fd
                                    @ load (InBuf, unat (inptr s)) (unat (insize s - inptr s)) s
                                    @ concat chunks))
             \<and> stderr s' = stderr s \<and> crc s' = crc s"
  using assms
proof (induction "length (concat chunks)" arbitrary: s chunks rule: less_induct)
  case less
  let ?rem = "load (InBuf, unat (inptr s)) (unat (insize s - inptr s)) s"
  from write_buf_returns [OF less.prems(3), of out_fd "(InBuf, unat (inptr s))" "insize s - inptr s"]
  obtain c0 where
    wb: "write_buf out_fd (InBuf, unat (inptr s)) (insize s - inptr s) s =
           Some (Inr ((), s\<lparr>bytes_out := bytes_out s + ucast (insize s - inptr s), wr_calls := c0,
                 fd_out := (if test s then fd_out s
                            else (fd_out s)(out_fd := fd_out s out_fd @ ?rem))\<rparr>))"
    and c0: "wr_calls s \<le> c0"
    by blast
  let ?s1 = "s\<lparr>bytes_out := bytes_out s + ucast (insize s - inptr s), wr_calls := c0,
               fd_out := (if test s then fd_out s
                          else (fd_out s)(out_fd := fd_out s out_fd @ ?rem))\<rparr>"
  have unf: "copy_loop in_fd out_fd s =
          (case read_buffer in_fd (InBuf, 0) (INBUFSIZ s) ?s1 of
             (got, s2) \<Rightarrow>
               if got = - 1 then Some (read_error s2)
               else copy_loop in_fd out_fd
                      (s2\<lparr>bytes_in := bytes_in s2 + word_of_int got,
                          insize := word_of_int got, inptr := 0\<rparr>))"
    using less.prems(7) by (subst copy_loop.simps) (simp add: wb)
  show ?case
  proof (cases chunks)
    case Nil
    with less.prems(1) have "fd_in ?s1 in_fd = []" by simp
    from read_buffer_eof [OF this] have rb: "read_buffer in_fd (InBuf, 0) (INBUFSIZ s) ?s1 = (0, ?s1)" .
    let ?s' = "?s1\<lparr>bytes_in := bytes_in ?s1 + word_of_int 0, insize := word_of_int 0, inptr := 0\<rparr>"
    have "copy_loop in_fd out_fd ?s' = Some (Inr ((), ?s'))"
      by (subst copy_loop.simps) simp
    then have "copy_loop in_fd out_fd s = Some (Inr ((), ?s'))"
      unfolding unf rb by simp
    with Nil less.prems(1) show ?thesis
      by (intro exI [of _ ?s']) simp
  next
    case (Cons c cs)
    with less.prems(1,2) have ev: "fd_in ?s1 in_fd = RdData c # map RdData cs"
      and ne: "c \<noteq> []" "\<forall>x\<in>set cs. x \<noteq> []"
      by simp_all
    from read_buffer_chunk [OF ev ne less.prems(4,5), of "(InBuf, 0)"] obtain d chunks' where
      rb: "read_buffer in_fd (InBuf, 0) (INBUFSIZ s) ?s1
             = (int (length d),
                store (InBuf, 0) d (?s1\<lparr>fd_in := (fd_in ?s1)(in_fd := map RdData chunks')\<rparr>))"
      and d: "d \<noteq> []" "length d \<le> unat (INBUFSIZ s)" "d @ concat chunks' = concat (c # cs)"
        "\<forall>x\<in>set chunks'. x \<noteq> []"
      by blast
    let ?s2 = "store (InBuf, 0) d (?s1\<lparr>fd_in := (fd_in ?s1)(in_fd := map RdData chunks')\<rparr>)"
    let ?s3 = "?s2\<lparr>bytes_in := bytes_in ?s2 + word_of_int (int (length d)),
                 insize := word_of_int (int (length d)), inptr := 0\<rparr>"
    have dl: "length d \<le> 2147483647" "0 < length d"
      using d(1,2) less.prems(5) by simp_all
    note un = ucast_of_nat_unsigned [OF dl(1)]
    have step: "copy_loop in_fd out_fd s = copy_loop in_fd out_fd ?s3"
      unfolding unf rb by simp
    have total: "length (concat chunks) = length d + length (concat chunks')"
      using d(3) Cons by (metis length_append)
    have p0: "length (concat chunks') < length (concat chunks)"
      using total dl(2) by simp
    have p1: "fd_in ?s3 in_fd = map RdData chunks'" by simp
    have p3: "test ?s3 \<or> (\<forall>i\<ge>wr_calls ?s3. \<exists>k. 0 < k \<and> wr_beh ?s3 i = WrTake k)"
      using less.prems(3) c0 by auto
    have p4: "0 < unat (INBUFSIZ ?s3)" "unat (INBUFSIZ ?s3) \<le> 2147483647"
      "unat (INBUFSIZ ?s3) \<le> length (inbuf ?s3)"
      using less.prems(4,5,6) by simp_all
    have p7: "inptr ?s3 < insize ?s3"
      using dl un(2) by (simp add: word_less_nat_alt)
    from less.hyps [OF p0 p1 d(4) p3 p4 p7] obtain s' where
      s': "copy_loop in_fd out_fd ?s3 = Some (Inr ((), s'))"
        "insize s' = 0" "inptr s' = 0" "fd_in s' in_fd = []"
        "bytes_in s' = bytes_in ?s3 + of_nat (length (concat chunks'))"
        "bytes_out s' = bytes_out ?s3 + ucast (insize ?s3 - inptr ?s3)
                          + of_nat (length (concat chunks'))"
        "fd_out s' = (if test ?s3 then fd_out ?s3
                      else (fd_out ?s3)(out_fd := fd_out ?s3 out_fd
                             @ load (InBuf, unat (inptr ?s3)) (unat (insize ?s3 - inptr ?s3)) ?s3
                             @ concat chunks'))"
        "stderr s' = stderr ?s3" "crc s' = crc ?s3"
      by blast
    have ld: "load (InBuf, unat (inptr ?s3)) (unat (insize ?s3 - inptr ?s3)) ?s3 = d"
    proof -
      have "length d \<le> length (inbuf s)"
        using d(2) less.prems(6) by simp
      from take_overlay [of 0 d "inbuf s"] this show ?thesis
        by (simp add: load_def un(2))
    qed
    have b_in: "bytes_in s' = bytes_in s + of_nat (length (concat chunks))"
      unfolding s'(5) total by simp
    have b_out: "bytes_out s' = bytes_out s + ucast (insize s - inptr s)
                                  + of_nat (length (concat chunks))"
      unfolding s'(6) total by (simp add: un(1))
    have f_out: "fd_out s' = (if test s then fd_out s
                             else (fd_out s)(out_fd := fd_out s out_fd @ ?rem @ concat chunks))"
      unfolding s'(7) ld using d(3) Cons by simp
    have rest: "stderr s' = stderr s" "crc s' = crc s"
      unfolding s'(8,9) by simp_all
    from step s'(1,2,3,4) b_in b_out f_out rest show ?thesis
      by (intro exI [of _ s']) simp
  qed
qed


lemma copy_loop_step:
  assumes "inptr s < insize s"
    and "write_buf out_fd (InBuf, unat (inptr s)) (insize s - inptr s) s = Some (Inr ((), s1))"
    and "read_buffer in_fd (InBuf, 0) (INBUFSIZ s1) s1 = (got, s2)"
  shows "copy_loop in_fd out_fd s =
           (if got = - 1 then Some (read_error s2)
            else copy_loop in_fd out_fd
                   (s2\<lparr>bytes_in := bytes_in s2 + word_of_int got,
                       insize := word_of_int got, inptr := 0\<rparr>))"
  using assms by (subst copy_loop.simps) simp

lemma copy_loop_read_fails:
  assumes "fd_in s in_fd = RdFail e # rest" and "e \<noteq> EAGAIN s"
    and "test s \<or> (\<forall>i\<ge>wr_calls s. \<exists>k. 0 < k \<and> wr_beh s i = WrTake k)"
    and "inptr s < insize s"
  shows "\<exists>s'. copy_loop in_fd out_fd s = Some (Inl (Abort_gzip, s'))
             \<and> stderr s' = stderr s @ diagnostic (program_name s) (ifname s)
                  (if e \<noteq> 0 then strerror s e else ''unexpected end of file'')
             \<and> bytes_out s' = bytes_out s + ucast (insize s - inptr s)
             \<and> bytes_in s' = bytes_in s
             \<and> fd_out s' = (if test s then fd_out s
                             else (fd_out s)(out_fd := fd_out s out_fd
                                    @ load (InBuf, unat (inptr s)) (unat (insize s - inptr s)) s))"
proof -
  let ?rem = "load (InBuf, unat (inptr s)) (unat (insize s - inptr s)) s"
  from write_buf_returns [OF assms(3), of out_fd "(InBuf, unat (inptr s))" "insize s - inptr s"]
  obtain c0 where
    wb: "write_buf out_fd (InBuf, unat (inptr s)) (insize s - inptr s) s =
           Some (Inr ((), s\<lparr>bytes_out := bytes_out s + ucast (insize s - inptr s), wr_calls := c0,
                 fd_out := (if test s then fd_out s
                            else (fd_out s)(out_fd := fd_out s out_fd @ ?rem))\<rparr>))"
    by blast
  let ?s1 = "s\<lparr>bytes_out := bytes_out s + ucast (insize s - inptr s), wr_calls := c0,
               fd_out := (if test s then fd_out s
                          else (fd_out s)(out_fd := fd_out s out_fd @ ?rem))\<rparr>"
  have ev: "fd_in ?s1 in_fd = RdFail e # rest" "e \<noteq> EAGAIN ?s1"
    using assms(1,2) by simp_all
  note rb = read_buffer_fail [OF ev, of "(InBuf, 0)" "INBUFSIZ ?s1"]
  let ?s2 = "?s1\<lparr>errno := e, fd_in := (fd_in ?s1)(in_fd := rest)\<rparr>"
  have "copy_loop in_fd out_fd s = Some (read_error ?s2)"
    using copy_loop_step [OF assms(4) wb rb] by simp
  then show ?thesis
    by (intro exI [of _ "snd (projl (read_error ?s2 :: unit res))"])
       (simp add: read_error_aborts)
qed

text \<open>
  C5, as the code has it.  \<open>copy\<close> clears \<open>errno\<close> and, while the input buffer
  has unread bytes, writes them with \<open>write_buf\<close> and then calls \<open>read_buffer\<close>
  (not \<open>fill_inbuf\<close>) for up to \<open>INBUFSIZ\<close> bytes at the start of the buffer: a
  result of -1 raises the read error; any other result is added to \<open>bytes_in\<close>
  and becomes \<open>insize\<close>, with \<open>inptr\<close> 0.  So with nothing unread it returns \<open>OK\<close>
  at once; on a source that delivers its chunks and then is at end of file (and
  a writer that makes progress) it returns \<open>OK\<close>, having written the unread
  bytes followed by the whole stream and counted them; and on a source whose
  next read fails it writes the unread bytes and aborts with the read error.
\<close>

theorem copy_contract:
  "(\<not> inptr s < insize s \<longrightarrow> copy in_fd out_fd s = Some (Inr (OK, s\<lparr>errno := 0\<rparr>)))
   \<and> (\<forall>t t1 got t2.
         inptr t < insize t
         \<and> write_buf out_fd (InBuf, unat (inptr t)) (insize t - inptr t) t = Some (Inr ((), t1))
         \<and> read_buffer in_fd (InBuf, 0) (INBUFSIZ t1) t1 = (got, t2) \<longrightarrow>
         copy_loop in_fd out_fd t =
           (if got = - 1 then Some (read_error t2)
            else copy_loop in_fd out_fd
                   (t2\<lparr>bytes_in := bytes_in t2 + word_of_int got,
                       insize := word_of_int got, inptr := 0\<rparr>)))
   \<and> (\<forall>chunks.
         fd_in s in_fd = map RdData chunks \<and> (\<forall>c\<in>set chunks. c \<noteq> [])
         \<and> (test s \<or> (\<forall>i\<ge>wr_calls s. \<exists>k. 0 < k \<and> wr_beh s i = WrTake k))
         \<and> 0 < unat (INBUFSIZ s) \<and> unat (INBUFSIZ s) \<le> 2147483647
         \<and> unat (INBUFSIZ s) \<le> length (inbuf s)
         \<and> inptr s < insize s \<longrightarrow>
         (\<exists>s'. copy in_fd out_fd s = Some (Inr (OK, s'))
             \<and> insize s' = 0 \<and> inptr s' = 0 \<and> fd_in s' in_fd = []
             \<and> bytes_in s' = bytes_in s + of_nat (length (concat chunks))
             \<and> bytes_out s' = bytes_out s + ucast (insize s - inptr s)
                                + of_nat (length (concat chunks))
             \<and> fd_out s' = (if test s then fd_out s
                             else (fd_out s)(out_fd := fd_out s out_fd
                                    @ load (InBuf, unat (inptr s)) (unat (insize s - inptr s)) s
                                    @ concat chunks))))
   \<and> (\<forall>e rest.
         fd_in s in_fd = RdFail e # rest \<and> e \<noteq> EAGAIN s
         \<and> (test s \<or> (\<forall>i\<ge>wr_calls s. \<exists>k. 0 < k \<and> wr_beh s i = WrTake k))
         \<and> inptr s < insize s \<longrightarrow>
         (\<exists>s'. copy in_fd out_fd s = Some (Inl (Abort_gzip, s'))
             \<and> stderr s' = stderr s @ diagnostic (program_name s) (ifname s)
                  (if e \<noteq> 0 then strerror s e else ''unexpected end of file'')
             \<and> bytes_out s' = bytes_out s + ucast (insize s - inptr s)
             \<and> bytes_in s' = bytes_in s
             \<and> fd_out s' = (if test s then fd_out s
                             else (fd_out s)(out_fd := fd_out s out_fd
                                    @ load (InBuf, unat (inptr s)) (unat (insize s - inptr s)) s))))"
proof -
  let ?s0 = "s\<lparr>errno := 0\<rparr>"
  have a: "copy in_fd out_fd s = Some (Inr (OK, ?s0))" if "\<not> inptr s < insize s"
  proof -
    from that have "copy_loop in_fd out_fd ?s0 = Some (Inr ((), ?s0))"
      by (subst copy_loop.simps) simp
    then show ?thesis by (simp add: copy_def)
  qed
  have b: "\<exists>s'. copy in_fd out_fd s = Some (Inr (OK, s'))
             \<and> insize s' = 0 \<and> inptr s' = 0 \<and> fd_in s' in_fd = []
             \<and> bytes_in s' = bytes_in s + of_nat (length (concat chunks))
             \<and> bytes_out s' = bytes_out s + ucast (insize s - inptr s)
                                + of_nat (length (concat chunks))
             \<and> fd_out s' = (if test s then fd_out s
                             else (fd_out s)(out_fd := fd_out s out_fd
                                    @ load (InBuf, unat (inptr s)) (unat (insize s - inptr s)) s
                                    @ concat chunks))"
    if h: "fd_in s in_fd = map RdData chunks" "\<forall>c\<in>set chunks. c \<noteq> []"
      "test s \<or> (\<forall>i\<ge>wr_calls s. \<exists>k. 0 < k \<and> wr_beh s i = WrTake k)"
      "0 < unat (INBUFSIZ s)" "unat (INBUFSIZ s) \<le> 2147483647"
      "unat (INBUFSIZ s) \<le> length (inbuf s)" "inptr s < insize s"
    for chunks
  proof -
    have p: "fd_in ?s0 in_fd = map RdData chunks" "\<forall>c\<in>set chunks. c \<noteq> []"
      "test ?s0 \<or> (\<forall>i\<ge>wr_calls ?s0. \<exists>k. 0 < k \<and> wr_beh ?s0 i = WrTake k)"
      "0 < unat (INBUFSIZ ?s0)" "unat (INBUFSIZ ?s0) \<le> 2147483647"
      "unat (INBUFSIZ ?s0) \<le> length (inbuf ?s0)" "inptr ?s0 < insize ?s0"
      using h by simp_all
    from copy_loop_data [OF p, of out_fd] obtain s' where
      s': "copy_loop in_fd out_fd ?s0 = Some (Inr ((), s'))"
        "insize s' = 0" "inptr s' = 0" "fd_in s' in_fd = []"
        "bytes_in s' = bytes_in ?s0 + of_nat (length (concat chunks))"
        "bytes_out s' = bytes_out ?s0 + ucast (insize ?s0 - inptr ?s0)
                          + of_nat (length (concat chunks))"
        "fd_out s' = (if test ?s0 then fd_out ?s0
                      else (fd_out ?s0)(out_fd := fd_out ?s0 out_fd
                             @ load (InBuf, unat (inptr ?s0)) (unat (insize ?s0 - inptr ?s0)) ?s0
                             @ concat chunks))"
      by blast
    from s'(1) have "copy in_fd out_fd s = Some (Inr (OK, s'))"
      by (simp add: copy_def)
    with s'(2-7) show ?thesis
      by (intro exI [of _ s']) simp
  qed
  have c: "\<exists>s'. copy in_fd out_fd s = Some (Inl (Abort_gzip, s'))
             \<and> stderr s' = stderr s @ diagnostic (program_name s) (ifname s)
                  (if e \<noteq> 0 then strerror s e else ''unexpected end of file'')
             \<and> bytes_out s' = bytes_out s + ucast (insize s - inptr s)
             \<and> bytes_in s' = bytes_in s
             \<and> fd_out s' = (if test s then fd_out s
                             else (fd_out s)(out_fd := fd_out s out_fd
                                    @ load (InBuf, unat (inptr s)) (unat (insize s - inptr s)) s))"
    if h: "fd_in s in_fd = RdFail e # rest" "e \<noteq> EAGAIN s"
      "test s \<or> (\<forall>i\<ge>wr_calls s. \<exists>k. 0 < k \<and> wr_beh s i = WrTake k)"
      "inptr s < insize s"
    for e rest
  proof -
    have p: "fd_in ?s0 in_fd = RdFail e # rest" "e \<noteq> EAGAIN ?s0"
      "test ?s0 \<or> (\<forall>i\<ge>wr_calls ?s0. \<exists>k. 0 < k \<and> wr_beh ?s0 i = WrTake k)"
      "inptr ?s0 < insize ?s0"
      using h by simp_all
    from copy_loop_read_fails [OF p, of out_fd] obtain s' where
      s': "copy_loop in_fd out_fd ?s0 = Some (Inl (Abort_gzip, s'))"
        "stderr s' = stderr ?s0 @ diagnostic (program_name ?s0) (ifname ?s0)
                  (if e \<noteq> 0 then strerror ?s0 e else ''unexpected end of file'')"
        "bytes_out s' = bytes_out ?s0 + ucast (insize ?s0 - inptr ?s0)"
        "bytes_in s' = bytes_in ?s0"
        "fd_out s' = (if test ?s0 then fd_out ?s0
                      else (fd_out ?s0)(out_fd := fd_out ?s0 out_fd
                             @ load (InBuf, unat (inptr ?s0)) (unat (insize ?s0 - inptr ?s0)) ?s0))"
      by blast
    from s'(1) have "copy in_fd out_fd s = Some (Inl (Abort_gzip, s'))"
      by (simp add: copy_def)
    with s'(2-5) show ?thesis
      by (intro exI [of _ s']) simp
  qed
  show ?thesis
    apply (intro conjI allI impI)
    subgoal by (rule a)
    subgoal for t t1 got t2 by (elim conjE) (rule copy_loop_step)
    subgoal for chunks by (rule b) simp_all
    subgoal for e rest by (rule c [of e rest]) simp_all
    done
qed

theorem copy_contract_witness:
  "\<exists>s'. copy 0 1 copy_data = Some (Inr (OK, s'))
        \<and> insize s' = 0 \<and> inptr s' = 0
        \<and> bytes_in s' = 5 \<and> bytes_out s' = 7
        \<and> fd_out s' 1 = bytes_of ''bchello''"
proof -
  have h: "fd_in copy_data 0 = map RdData [bytes_of ''hello'']
         \<and> (\<forall>c\<in>set [bytes_of ''hello'']. c \<noteq> [])
         \<and> (test copy_data
             \<or> (\<forall>i\<ge>wr_calls copy_data. \<exists>k. 0 < k \<and> wr_beh copy_data i = WrTake k))
         \<and> 0 < unat (INBUFSIZ copy_data) \<and> unat (INBUFSIZ copy_data) \<le> 2147483647
         \<and> unat (INBUFSIZ copy_data) \<le> length (inbuf copy_data)
         \<and> inptr copy_data < insize copy_data"
    by (simp add: copy_data_def copy_at_eof_def initial_def bytes_of_def)
  note th = copy_contract [of copy_data 0 1, THEN conjunct2, THEN conjunct2, THEN conjunct1,
      rule_format, OF h]
  then obtain s' where
    s': "copy 0 1 copy_data = Some (Inr (OK, s'))" "insize s' = 0" "inptr s' = 0"
      "bytes_in s' = bytes_in copy_data + of_nat (length (concat [bytes_of ''hello'']))"
      "bytes_out s' = bytes_out copy_data + ucast (insize copy_data - inptr copy_data)
                        + of_nat (length (concat [bytes_of ''hello'']))"
      "fd_out s' = (if test copy_data then fd_out copy_data
                    else (fd_out copy_data)(1 := fd_out copy_data 1
                           @ load (InBuf, unat (inptr copy_data))
                               (unat (insize copy_data - inptr copy_data)) copy_data
                           @ concat [bytes_of ''hello'']))"
    by (elim exE conjE)
  have v: "bytes_in copy_data + of_nat (length (concat [bytes_of ''hello''])) = 5"
    "bytes_out copy_data + ucast (insize copy_data - inptr copy_data)
       + of_nat (length (concat [bytes_of ''hello''])) = 7"
    "(if test copy_data then fd_out copy_data
      else (fd_out copy_data)(1 := fd_out copy_data 1
             @ load (InBuf, unat (inptr copy_data))
                 (unat (insize copy_data - inptr copy_data)) copy_data
             @ concat [bytes_of ''hello''])) 1 = bytes_of ''bchello''"
    by (simp_all add: copy_data_def copy_at_eof_def initial_def bytes_of_def load_def)
  from s' v show ?thesis
    by (intro exI [of _ s']) simp
qed

text \<open>
  C5, as the claim has it: \<open>copy\<close> never returns normally at end of file.  With
  two unread bytes in the buffer and the source at end of file, it returns \<open>OK\<close>.
\<close>

theorem copy_contract_counterexample:
  "outcome (copy 0 1 copy_at_eof) = Some (Inr OK)
   \<and> outcome (copy 0 1 copy_at_eof) \<noteq> Some (Inl Abort_gzip)"
proof -
  have h: "fd_in copy_at_eof 0 = map RdData []" "\<forall>c\<in>set ([] :: uch list list). c \<noteq> []"
    "test copy_at_eof
       \<or> (\<forall>i\<ge>wr_calls copy_at_eof. \<exists>k. 0 < k \<and> wr_beh copy_at_eof i = WrTake k)"
    "0 < unat (INBUFSIZ copy_at_eof)" "unat (INBUFSIZ copy_at_eof) \<le> 2147483647"
    "unat (INBUFSIZ copy_at_eof) \<le> length (inbuf copy_at_eof)"
    "inptr copy_at_eof < insize copy_at_eof"
    by (simp_all add: copy_at_eof_def initial_def bytes_of_def)
  have h0: "fd_in (copy_at_eof\<lparr>errno := 0\<rparr>) 0 = map RdData []"
    "\<forall>c\<in>set ([] :: uch list list). c \<noteq> []"
    "test (copy_at_eof\<lparr>errno := 0\<rparr>)
       \<or> (\<forall>i\<ge>wr_calls (copy_at_eof\<lparr>errno := 0\<rparr>).
             \<exists>k. 0 < k \<and> wr_beh (copy_at_eof\<lparr>errno := 0\<rparr>) i = WrTake k)"
    "0 < unat (INBUFSIZ (copy_at_eof\<lparr>errno := 0\<rparr>))"
    "unat (INBUFSIZ (copy_at_eof\<lparr>errno := 0\<rparr>)) \<le> 2147483647"
    "unat (INBUFSIZ (copy_at_eof\<lparr>errno := 0\<rparr>)) \<le> length (inbuf (copy_at_eof\<lparr>errno := 0\<rparr>))"
    "inptr (copy_at_eof\<lparr>errno := 0\<rparr>) < insize (copy_at_eof\<lparr>errno := 0\<rparr>)"
    using h by simp_all
  from copy_loop_data [OF h0, of 1] obtain s' where
    "copy_loop 0 1 (copy_at_eof\<lparr>errno := 0\<rparr>) = Some (Inr ((), s'))"
    by blast
  then have "outcome (copy 0 1 copy_at_eof) = Some (Inr OK)"
    by (simp add: copy_def outcome_def)
  then show ?thesis by simp
qed


end
